theory Spec2Isabelle
  imports Complex_Main
begin

section \<open>Word-search generator of \<^verbatim>\<open>src/script.js\<close>\<close>

subsection \<open>Data model\<close>

text \<open>
  A grid cell is a JavaScript string: the empty string \<^verbatim>\<open>''\<close> while the cell is
  unset, otherwise the one-character string \<^verbatim>\<open>word[i]\<close> or \<^verbatim>\<open>letters[k]\<close>.
  The grid is an array of rows, read and written as \<^verbatim>\<open>grid[y][x]\<close>.
\<close>

type_synonym cell = string
type_synonym grid = "cell list list"

text \<open>The two \<^verbatim>\<open>console.warn\<close> messages of \<^verbatim>\<open>generateWordSearch\<close>.\<close>

datatype warning = TooLong string | CouldNotPlace string nat

text \<open>
  Abnormal outcomes of an array access outside the grid. \<^verbatim>\<open>grid[y]\<close> for a missing
  row is \<^verbatim>\<open>undefined\<close> and indexing it throws a TypeError. A write
  \<^verbatim>\<open>grid[y][x] = c\<close> with \<open>x\<close> outside the row does not throw: it grows the row or
  sets a non-index property, so the grid stops being a rectangle of cells;
  the model reports it as \<open>OutsideRow\<close> and stops.
\<close>

datatype error = TypeError | OutsideRow

text \<open>
  The random source: \<open>rnd k\<close> is the value behind the \<open>k\<close>-th call of
  \<^verbatim>\<open>Math.random()\<close>, and \<^verbatim>\<open>Math.floor(Math.random() * n)\<close> is the integer in
  \<open>[0, n)\<close> obtained from it (\<open>0\<close> when \<open>n = 0\<close>).
\<close>

type_synonym rng = "nat \<Rightarrow> nat"

definition random_below :: "rng \<Rightarrow> nat \<Rightarrow> nat \<Rightarrow> nat" where
  "random_below rnd k n = (if n = 0 then 0 else rnd k mod n)"

definition directions :: "(int \<times> int) list" where
  "directions = [(0, 1), (1, 0), (1, 1), (1, -1), (0, -1), (-1, 0), (-1, 1), (-1, -1)]"

definition letters :: string where
  "letters = ''ABCDEFGHIJKLMNOPQRSTUVWXYZ''"

definition maxAttempts :: nat where
  "maxAttempts = 100"

record gen_state =
  grid :: grid
  placedWords :: "string list"
  warnings :: "warning list"
  calls :: nat

subsection \<open>Array reads and writes\<close>

definition row_at :: "grid \<Rightarrow> int \<Rightarrow> cell list option" where
  "row_at g y = (if 0 \<le> y \<and> y < int (length g) then Some (g ! nat y) else None)"

definition cell_in :: "cell list \<Rightarrow> int \<Rightarrow> cell option" where
  "cell_in row x = (if 0 \<le> x \<and> x < int (length row) then Some (row ! nat x) else None)"

definition write_cell :: "grid \<Rightarrow> int \<Rightarrow> int \<Rightarrow> cell \<Rightarrow> error + grid" where
  "write_cell g x y c =
     (case row_at g y of
        None \<Rightarrow> Inl TypeError
      | Some row \<Rightarrow>
          if 0 \<le> x \<and> x < int (length row)
          then Inr (g[nat y := row[nat x := c]])
          else Inl OutsideRow)"

subsection \<open>canPlaceWord\<close>

text \<open>
  The loop of \<^verbatim>\<open>canPlaceWord\<close> from index \<open>i\<close> on. A cell read beyond the end of
  an existing row is \<^verbatim>\<open>undefined\<close>, which differs from \<^verbatim>\<open>''\<close> and from every
  letter, so the check answers \<^verbatim>\<open>false\<close> there.
\<close>

function canPlaceWord_from ::
  "grid \<Rightarrow> string \<Rightarrow> int \<Rightarrow> int \<Rightarrow> int \<Rightarrow> int \<Rightarrow> nat \<Rightarrow> nat \<Rightarrow> error + bool" where
  "canPlaceWord_from g word startX startY dx dy sz i =
     (if i < length word then
        (let x = startX + int i * dx; y = startY + int i * dy in
         if x < 0 \<or> x \<ge> int sz \<or> y < 0 \<or> y \<ge> int sz then Inr False
         else
           (case row_at g y of
              None \<Rightarrow> Inl TypeError
            | Some row \<Rightarrow>
                (case cell_in row x of
                   None \<Rightarrow> Inr False
                 | Some c \<Rightarrow>
                     if c \<noteq> [] \<and> c \<noteq> [word ! i] then Inr False
                     else canPlaceWord_from g word startX startY dx dy sz (Suc i))))
      else Inr True)"
  by pat_completeness auto
termination
  by (relation "measure (\<lambda>(g, word, startX, startY, dx, dy, sz, i). length word - i)") auto

declare canPlaceWord_from.simps [simp del]

definition canPlaceWord ::
  "grid \<Rightarrow> string \<Rightarrow> int \<Rightarrow> int \<Rightarrow> int \<Rightarrow> int \<Rightarrow> nat \<Rightarrow> error + bool" where
  "canPlaceWord g word startX startY dx dy sz =
     canPlaceWord_from g word startX startY dx dy sz 0"

subsection \<open>placeWord\<close>

function placeWord_from ::
  "grid \<Rightarrow> string \<Rightarrow> int \<Rightarrow> int \<Rightarrow> int \<Rightarrow> int \<Rightarrow> nat \<Rightarrow> error + grid" where
  "placeWord_from g word startX startY dx dy i =
     (if i < length word then
        (let x = startX + int i * dx; y = startY + int i * dy in
         case write_cell g x y [word ! i] of
           Inl e \<Rightarrow> Inl e
         | Inr g' \<Rightarrow> placeWord_from g' word startX startY dx dy (Suc i))
      else Inr g)"
  by pat_completeness auto
termination
  by (relation "measure (\<lambda>(g, word, startX, startY, dx, dy, i). length word - i)") auto

declare placeWord_from.simps [simp del]

definition placeWord ::
  "grid \<Rightarrow> string \<Rightarrow> int \<Rightarrow> int \<Rightarrow> int \<Rightarrow> int \<Rightarrow> error + grid" where
  "placeWord g word startX startY dx dy = placeWord_from g word startX startY dx dy 0"

subsection \<open>fillEmptyCells\<close>

function fillRow :: "rng \<Rightarrow> cell list \<Rightarrow> nat \<Rightarrow> nat \<Rightarrow> cell list \<times> nat" where
  "fillRow rnd row x k =
     (if x < length row then
        (if row ! x = [] then
           (let randomIndex = random_below rnd k (length letters) in
            fillRow rnd (row[x := [letters ! randomIndex]]) (Suc x) (Suc k))
         else fillRow rnd row (Suc x) k)
      else (row, k))"
  by pat_completeness auto
termination
  by (relation "measure (\<lambda>(rnd, row, x, k). length row - x)") auto

declare fillRow.simps [simp del]

function fillRows :: "rng \<Rightarrow> grid \<Rightarrow> nat \<Rightarrow> nat \<Rightarrow> grid \<times> nat" where
  "fillRows rnd g y k =
     (if y < length g then
        (case fillRow rnd (g ! y) 0 k of
           (row', k') \<Rightarrow> fillRows rnd (g[y := row']) (Suc y) k')
      else (g, k))"
  by pat_completeness auto
termination
  by (relation "measure (\<lambda>(rnd, g, y, k). length g - y)") auto

declare fillRows.simps [simp del]

definition fillEmptyCells :: "rng \<Rightarrow> grid \<Rightarrow> nat \<Rightarrow> grid \<times> nat" where
  "fillEmptyCells rnd g k = fillRows rnd g 0 k"

subsection \<open>generateWordSearch\<close>

text \<open>
  The \<^verbatim>\<open>while (!placed && attempts < maxAttempts)\<close> loop for one word. Each
  round calls \<^verbatim>\<open>Math.random()\<close> three times: direction index, \<^verbatim>\<open>startX\<close>,
  \<^verbatim>\<open>startY\<close>.
\<close>

function placeLoop ::
  "rng \<Rightarrow> nat \<Rightarrow> string \<Rightarrow> gen_state \<Rightarrow> bool \<Rightarrow> nat \<Rightarrow> error + (gen_state \<times> bool)" where
  "placeLoop rnd sz word st placed attempts =
     (if \<not> placed \<and> attempts < maxAttempts then
        (let dirIndex = random_below rnd (calls st) (length directions);
             startX = int (random_below rnd (calls st + 1) sz);
             startY = int (random_below rnd (calls st + 2) sz);
             st1 = st\<lparr>calls := calls st + 3\<rparr>
         in case directions ! dirIndex of (dx, dy) \<Rightarrow>
            (case canPlaceWord (grid st1) word startX startY dx dy sz of
               Inl e \<Rightarrow> Inl e
             | Inr True \<Rightarrow>
                 (case placeWord (grid st1) word startX startY dx dy of
                    Inl e \<Rightarrow> Inl e
                  | Inr g' \<Rightarrow>
                      placeLoop rnd sz word
                        (st1\<lparr>grid := g', placedWords := placedWords st1 @ [word]\<rparr>)
                        True (Suc attempts))
             | Inr False \<Rightarrow> placeLoop rnd sz word st1 False (Suc attempts)))
      else Inr (st, placed))"
  by pat_completeness auto
termination
  by (relation "measure (\<lambda>(rnd, sz, word, st, placed, attempts).
        if placed then 0 else Suc (maxAttempts - attempts))") auto

declare placeLoop.simps [simp del]

text \<open>The body of the \<^verbatim>\<open>for (const word of sortedWords)\<close> loop.\<close>

definition tryPlaceWord :: "rng \<Rightarrow> nat \<Rightarrow> gen_state \<Rightarrow> string \<Rightarrow> error + gen_state" where
  "tryPlaceWord rnd sz st word =
     (if length word > sz then Inr (st\<lparr>warnings := warnings st @ [TooLong word]\<rparr>)
      else
        (case placeLoop rnd sz word st False 0 of
           Inl e \<Rightarrow> Inl e
         | Inr (st', placed) \<Rightarrow>
             if \<not> placed
             then Inr (st'\<lparr>warnings := warnings st' @ [CouldNotPlace word maxAttempts]\<rparr>)
             else Inr st'))"

fun placeWords :: "rng \<Rightarrow> nat \<Rightarrow> gen_state \<Rightarrow> string list \<Rightarrow> error + gen_state" where
  "placeWords rnd sz st [] = Inr st"
| "placeWords rnd sz st (word # rest) =
     (case tryPlaceWord rnd sz st word of
        Inl e \<Rightarrow> Inl e
      | Inr st' \<Rightarrow> placeWords rnd sz st' rest)"

text \<open>
  \<^verbatim>\<open>Array.prototype.sort\<close> is the engine's, not this repository's. ECMAScript
  requires it to be stable, and a stable sort under a consistent comparator
  has one result; it is modelled as the stable insertion sort that puts an
  element before the first one it does not compare greater than.
\<close>

definition byLength :: "string \<Rightarrow> string \<Rightarrow> int" where
  "byLength a b = int (length b) - int (length a)"

fun insertBy :: "('a \<Rightarrow> 'a \<Rightarrow> int) \<Rightarrow> 'a \<Rightarrow> 'a list \<Rightarrow> 'a list" where
  "insertBy cmp a [] = [a]"
| "insertBy cmp a (b # bs) = (if cmp a b \<le> 0 then a # b # bs else b # insertBy cmp a bs)"

fun sortBy :: "('a \<Rightarrow> 'a \<Rightarrow> int) \<Rightarrow> 'a list \<Rightarrow> 'a list" where
  "sortBy cmp [] = []"
| "sortBy cmp (a # as) = insertBy cmp a (sortBy cmp as)"

text \<open>Everything \<^verbatim>\<open>generateWordSearch\<close> does once \<^verbatim>\<open>sortedWords\<close> exists.\<close>

definition generateFrom :: "rng \<Rightarrow> string list \<Rightarrow> nat \<Rightarrow> error + gen_state" where
  "generateFrom rnd sortedWords sz =
     (let g0 = replicate sz (replicate sz []);
          st0 = \<lparr>grid = g0, placedWords = [], warnings = [], calls = 0\<rparr>
      in case placeWords rnd sz st0 sortedWords of
           Inl e \<Rightarrow> Inl e
         | Inr st \<Rightarrow>
             (case fillEmptyCells rnd (grid st) (calls st) of
                (g, k) \<Rightarrow> Inr (st\<lparr>grid := g, calls := k\<rparr>)))"

text \<open>
  The result record carries \<^verbatim>\<open>grid\<close> and \<^verbatim>\<open>placedWords\<close>, which the function
  returns, together with the warnings it logged and the number of random
  values it drew.
\<close>

definition generateWordSearch :: "rng \<Rightarrow> string list \<Rightarrow> nat \<Rightarrow> error + gen_state" where
  "generateWordSearch rnd words sz = generateFrom rnd (sortBy byLength words) sz"

subsection \<open>The caller's array\<close>

text \<open>
  \<^verbatim>\<open>sort\<close> sorts the array it is called on in place, so what happens to the
  caller's \<^verbatim>\<open>words\<close> depends on which array that is. Here arrays of words live
  in a store, an address is an index into it, the spread \<^verbatim>\<open>[...words]\<close>
  allocates a new array and \<^verbatim>\<open>sort\<close> overwrites the array at its address.
\<close>

type_synonym store = "string list list"

definition spread :: "store \<Rightarrow> nat \<Rightarrow> store \<times> nat" where
  "spread h a = (h @ [h ! a], length h)"

definition sortInPlace :: "store \<Rightarrow> nat \<Rightarrow> (string \<Rightarrow> string \<Rightarrow> int) \<Rightarrow> store \<times> nat" where
  "sortInPlace h a cmp = (h[a := sortBy cmp (h ! a)], a)"

definition generateWordSearch_store ::
  "rng \<Rightarrow> store \<Rightarrow> nat \<Rightarrow> nat \<Rightarrow> store \<times> (error + gen_state)" where
  "generateWordSearch_store rnd h words sz =
     (case spread h words of
        (h1, copy) \<Rightarrow>
          (case sortInPlace h1 copy byLength of
             (h2, sortedWords) \<Rightarrow> (h2, generateFrom rnd (h2 ! sortedWords) sz)))"

subsection \<open>The word list columns of the renderers\<close>

definition midPoint :: "'a list \<Rightarrow> nat" where
  "midPoint placed = nat \<lceil>real (length placed) / 2\<rceil>"

definition slice_to :: "'a list \<Rightarrow> nat \<Rightarrow> 'a list" where
  "slice_to xs e = take e xs"

definition slice_from :: "'a list \<Rightarrow> nat \<Rightarrow> 'a list" where
  "slice_from xs b = drop b xs"

text \<open>Lines 136 to 138, in \<^verbatim>\<open>createPuzzleHTML\<close>.\<close>

definition createPuzzleHTML_columns :: "string list \<Rightarrow> string list \<times> string list" where
  "createPuzzleHTML_columns placed =
     (let m = midPoint placed in (slice_to placed m, slice_from placed m))"

text \<open>Lines 574 to 576, in \<^verbatim>\<open>createPDFDirectly\<close>.\<close>

definition createPDFDirectly_columns :: "string list \<Rightarrow> string list \<times> string list" where
  "createPDFDirectly_columns placed =
     (let m = midPoint placed in (slice_to placed m, slice_from placed m))"

section \<open>Properties\<close>

subsection \<open>Notions used in the statements\<close>

text \<open>
  A grid of the generator is \<open>sz\<close> rows of \<open>sz\<close> cells. \<open>cellAt g x y\<close> is
  \<^verbatim>\<open>grid[y][x]\<close> for a position inside it. \<open>validPlacement\<close> is the validity
  test in the words of the specification: every target cell lies inside the
  grid and is empty or already holds the required letter.
\<close>

definition square :: "nat \<Rightarrow> grid \<Rightarrow> bool" where
  "square n g = (length g = n \<and> list_all (\<lambda>row. length row = n) g)"

definition cellAt :: "grid \<Rightarrow> int \<Rightarrow> int \<Rightarrow> cell" where
  "cellAt g x y = g ! nat y ! nat x"

definition inside :: "nat \<Rightarrow> int \<Rightarrow> int \<Rightarrow> bool" where
  "inside sz x y = (0 \<le> x \<and> x < int sz \<and> 0 \<le> y \<and> y < int sz)"

definition validPlacement ::
  "grid \<Rightarrow> string \<Rightarrow> int \<Rightarrow> int \<Rightarrow> int \<Rightarrow> int \<Rightarrow> nat \<Rightarrow> bool" where
  "validPlacement g word x y dx dy sz =
     (\<forall>i \<in> {0..<length word}.
        inside sz (x + int i * dx) (y + int i * dy) \<and>
        (cellAt g (x + int i * dx) (y + int i * dy) = [] \<or>
         cellAt g (x + int i * dx) (y + int i * dy) = [word ! i]))"

text \<open>
  \<open>keepsLetters sz g g'\<close>: every cell of \<open>g\<close> that holds a letter holds the same
  letter in \<open>g'\<close>. \<open>traceable sz g word\<close>: the word can be read in \<open>g\<close> from a
  start cell of the grid along one of the eight directions. \<open>isLetter\<close>: a
  one-character string whose character is one of A to Z. \<open>cellsFrom\<close>: every
  cell is empty or a character of one of the words. \<open>originOk\<close>: every cell of \<open>g'\<close> is the cell of
  \<open>g\<close> or a character of the word.
\<close>

definition keepsLetters :: "nat \<Rightarrow> grid \<Rightarrow> grid \<Rightarrow> bool" where
  "keepsLetters sz g g' =
     (\<forall>y \<in> {0..<sz}. \<forall>x \<in> {0..<sz}. g ! y ! x \<noteq> [] \<longrightarrow> g' ! y ! x = g ! y ! x)"

definition traceable :: "nat \<Rightarrow> grid \<Rightarrow> string \<Rightarrow> bool" where
  "traceable sz g word =
     (\<exists>x \<in> {0..<sz}. \<exists>y \<in> {0..<sz}. \<exists>(dx, dy) \<in> set directions.
        \<forall>i \<in> {0..<length word}.
          inside sz (int x + int i * dx) (int y + int i * dy) \<and>
          cellAt g (int x + int i * dx) (int y + int i * dy) = [word ! i])"

definition isLetter :: "cell \<Rightarrow> bool" where
  "isLetter c = (\<exists>l \<in> set letters. c = [l])"

definition cellsFrom :: "nat \<Rightarrow> grid \<Rightarrow> string list \<Rightarrow> bool" where
  "cellsFrom sz g ws =
     (\<forall>x y. inside sz x y \<longrightarrow>
        cellAt g x y = [] \<or> (\<exists>w \<in> set ws. \<exists>l \<in> set w. cellAt g x y = [l]))"

definition originOk :: "nat \<Rightarrow> grid \<Rightarrow> grid \<Rightarrow> string \<Rightarrow> bool" where
  "originOk sz g g' word =
     (\<forall>x y. inside sz x y \<longrightarrow>
        cellAt g' x y = cellAt g x y \<or> (\<exists>i < length word. cellAt g' x y = [word ! i]))"

text \<open>
  The \<open>j\<close>-th round of the retry loop that starts when \<open>k\<close> random values
  have been drawn uses the values \<open>k + 3j\<close>, \<open>k + 3j + 1\<close> and \<open>k + 3j + 2\<close>
  for its direction, \<^verbatim>\<open>startX\<close> and \<^verbatim>\<open>startY\<close>: \<open>candidate\<close>. \<open>attemptCheck\<close>
  and \<open>attemptWrite\<close> are \<^verbatim>\<open>canPlaceWord\<close> and \<^verbatim>\<open>placeWord\<close> at a candidate,
  \<open>candidateOk\<close> is the specification's test there, and \<open>placeResult\<close> is
  what a loop of \<open>n\<close> rounds comes to: the first valid candidate is written.
\<close>

definition candidate :: "rng \<Rightarrow> nat \<Rightarrow> nat \<Rightarrow> nat \<Rightarrow> (int \<times> int) \<times> int \<times> int" where
  "candidate rnd sz k j =
     (directions ! random_below rnd (k + 3 * j) (length directions),
      int (random_below rnd (k + 3 * j + 1) sz),
      int (random_below rnd (k + 3 * j + 2) sz))"

definition candidateOk :: "grid \<Rightarrow> string \<Rightarrow> nat \<Rightarrow> (int \<times> int) \<times> int \<times> int \<Rightarrow> bool" where
  "candidateOk g word sz c =
     (case c of ((dx, dy), x, y) \<Rightarrow> validPlacement g word x y dx dy sz)"



definition placeResult ::
  "rng \<Rightarrow> nat \<Rightarrow> string \<Rightarrow> gen_state \<Rightarrow> nat \<Rightarrow> error + (gen_state \<times> bool)" where
  "placeResult rnd sz word st n =
     (case find (\<lambda>j. candidateOk (grid st) word sz (candidate rnd sz (calls st) j)) [0..<n] of
        None \<Rightarrow> Inr (st\<lparr>calls := calls st + 3 * n\<rparr>, False)
      | Some j \<Rightarrow>
          (case candidate rnd sz (calls st) j of
             ((dx, dy), x, y) \<Rightarrow>
               (case placeWord (grid st) word x y dx dy of
                  Inl e \<Rightarrow> Inl e
                | Inr g' \<Rightarrow>
                    Inr (st\<lparr>grid := g', placedWords := placedWords st @ [word],
                              calls := calls st + 3 * Suc j\<rparr>, True))))"



text \<open>
  The state at the start of the word loop, and the word a warning is about.
\<close>

definition emptyGrid :: "nat \<Rightarrow> grid" where
  "emptyGrid sz = replicate sz (replicate sz [])"

definition initialState :: "nat \<Rightarrow> gen_state" where
  "initialState sz = \<lparr>grid = emptyGrid sz, placedWords = [], warnings = [], calls = 0\<rparr>"


text \<open>
  For the concrete runs at the end: a random source, and two states of a run
  on a 2 by 2 grid, one with ``AB'' written downwards in the first column,
  one with every cell holding an A.
\<close>

definition fiveTimes :: rng where
  "fiveTimes k = 5 * k"

definition exampleState :: gen_state where
  "exampleState =
     \<lparr>grid = [[''A'', []], [''B'', []]], placedWords = [''AB''], warnings = [], calls = 3\<rparr>"


subsection \<open>The placement check\<close>

lemma square_row: "square n g \<Longrightarrow> y < n \<Longrightarrow> length (g ! y) = n"
  by (simp add: square_def list_all_length)

lemma square_length: "square n g \<Longrightarrow> length g = n"
  by (simp add: square_def)

lemma row_at_square: "square n g \<Longrightarrow> 0 \<le> y \<Longrightarrow> y < int n \<Longrightarrow> row_at g y = Some (g ! nat y)"
  by (simp add: row_at_def square_def)

lemma cell_in_square:
  "square n g \<Longrightarrow> inside n x y \<Longrightarrow> cell_in (g ! nat y) x = Some (cellAt g x y)"
proof -
  assume sq: "square n g" and ins: "inside n x y"
  from ins have "nat y < n" by (auto simp: inside_def)
  with sq have "length (g ! nat y) = n" by (rule square_row)
  with ins show ?thesis by (simp add: cell_in_def cellAt_def inside_def)
qed

lemma all_from_split:
  "i < n \<Longrightarrow> (\<forall>j. i \<le> j \<and> j < n \<longrightarrow> P j) = (P i \<and> (\<forall>j. Suc i \<le> j \<and> j < n \<longrightarrow> P j))"
  by (auto simp: Suc_le_eq dest: le_neq_implies_less)

lemma canPlaceWord_from_square:
  "square sz g \<Longrightarrow>
   canPlaceWord_from g w sx sy dx dy sz i =
     Inr (\<forall>j. i \<le> j \<and> j < length w \<longrightarrow>
            inside sz (sx + int j * dx) (sy + int j * dy) \<and>
            (cellAt g (sx + int j * dx) (sy + int j * dy) = [] \<or>
             cellAt g (sx + int j * dx) (sy + int j * dy) = [w ! j]))"
proof (induction g w sx sy dx dy sz i rule: canPlaceWord_from.induct)
  case (1 g word startX startY dx dy sz i)
  let ?x = "startX + int i * dx" and ?y = "startY + int i * dy"
  let ?ok = "\<lambda>j. inside sz (startX + int j * dx) (startY + int j * dy) \<and>
            (cellAt g (startX + int j * dx) (startY + int j * dy) = [] \<or>
             cellAt g (startX + int j * dx) (startY + int j * dy) = [word ! j])"
  show ?case
  proof (cases "i < length word")
    case False
    then show ?thesis by (subst canPlaceWord_from.simps) auto
  next
    case len: True
    have split: "(\<forall>j. i \<le> j \<and> j < length word \<longrightarrow> ?ok j) =
                 (?ok i \<and> (\<forall>j. Suc i \<le> j \<and> j < length word \<longrightarrow> ?ok j))"
      using len by (rule all_from_split)
    show ?thesis
    proof (cases "inside sz ?x ?y")
      case False
      then have "canPlaceWord_from g word startX startY dx dy sz i = Inr False"
        using len by (subst canPlaceWord_from.simps) (auto simp: inside_def Let_def)
      with False split show ?thesis by simp
    next
      case ins: True
      then have r: "row_at g ?y = Some (g ! nat ?y)"
        using "1.prems" by (simp add: row_at_square inside_def)
      have c: "cell_in (g ! nat ?y) ?x = Some (cellAt g ?x ?y)"
        using "1.prems" ins by (rule cell_in_square)
      have nb: "\<not> (?x < 0 \<or> int sz \<le> ?x \<or> ?y < 0 \<or> int sz \<le> ?y)"
        using ins by (auto simp: inside_def)
      show ?thesis
      proof (cases "cellAt g ?x ?y \<noteq> [] \<and> cellAt g ?x ?y \<noteq> [word ! i]")
        case True
        then have "canPlaceWord_from g word startX startY dx dy sz i = Inr False"
          using len nb r c by (subst canPlaceWord_from.simps) (simp add: Let_def)
        with True split show ?thesis by simp
      next
        case False
        then have "canPlaceWord_from g word startX startY dx dy sz i =
                   canPlaceWord_from g word startX startY dx dy sz (Suc i)"
          using len nb r c by (subst canPlaceWord_from.simps) (auto simp: Let_def)
        also have "\<dots> = Inr (\<forall>j. Suc i \<le> j \<and> j < length word \<longrightarrow> ?ok j)"
          using "1.IH"[OF len refl refl nb r c _ "1.prems"] False by blast
        finally show ?thesis using False ins split by simp
      qed
    qed
  qed
qed

lemma canPlaceWord_valid:
  "square sz g \<Longrightarrow> canPlaceWord g word x y dx dy sz = Inr (validPlacement g word x y dx dy sz)"
  by (simp add: canPlaceWord_def canPlaceWord_from_square validPlacement_def Ball_def)

text \<open>
  Claim C4. On a \<open>sz\<close> by \<open>sz\<close> grid \<^verbatim>\<open>canPlaceWord\<close> returns without error, and
  it answers true exactly when every letter index \<open>i\<close> below the word's length
  has its target cell \<open>(x + i*dx, y + i*dy)\<close> inside \<open>[0, sz)\<close> in both
  coordinates and that cell is empty or already holds \<open>word[i]\<close>; otherwise it
  answers false.
\<close>

theorem canPlaceWord_iff_valid:
  "square sz g \<Longrightarrow>
   canPlaceWord g word x y dx dy sz =
     Inr (\<forall>i < length word.
            (0 \<le> x + int i * dx \<and> x + int i * dx < int sz \<and>
             0 \<le> y + int i * dy \<and> y + int i * dy < int sz) \<and>
            (g ! nat (y + int i * dy) ! nat (x + int i * dx) = [] \<or>
             g ! nat (y + int i * dy) ! nat (x + int i * dx) = [word ! i]))"
  by (simp add: canPlaceWord_valid validPlacement_def Ball_def inside_def cellAt_def)

theorem canPlaceWord_iff_valid_witness:
  "square 2 [[[], ''B''], [[], []]] \<and>
   canPlaceWord [[[], ''B''], [[], []]] ''AB'' 0 0 1 0 2 = Inr True \<and>
   canPlaceWord [[[], ''B''], [[], []]] ''AB'' 0 0 0 1 2 = Inr True \<and>
   canPlaceWord [[[], ''B''], [[], []]] ''AC'' 0 0 1 0 2 = Inr False \<and>
   canPlaceWord [[[], ''B''], [[], []]] ''AB'' 1 0 1 0 2 = Inr False"
proof -
  have sq: "square 2 [[[], ''B''], [[], []]]" by (simp add: square_def)
  show ?thesis
    using sq canPlaceWord_iff_valid[OF sq, of "''AB''" 0 0 1 0]
      canPlaceWord_iff_valid[OF sq, of "''AB''" 0 0 0 1]
      canPlaceWord_iff_valid[OF sq, of "''AC''" 0 0 1 0]
      canPlaceWord_iff_valid[OF sq, of "''AB''" 1 0 1 0]
    by (auto simp: less_Suc_eq numeral_2_eq_2)
qed

subsection \<open>Writing a word\<close>

lemma step_inj:
  fixes sx sy dx dy :: int and i j :: nat
  assumes "dx \<noteq> 0 \<or> dy \<noteq> 0"
    and "sx + int i * dx = sx + int j * dx" and "sy + int i * dy = sy + int j * dy"
  shows "i = j"
  using assms by auto

lemma write_cell_square:
  assumes "square sz g" and "inside sz x y"
  shows "\<exists>g'. write_cell g x y c = Inr g' \<and> square sz g' \<and>
           (\<forall>x' y'. inside sz x' y' \<longrightarrow>
              cellAt g' x' y' = (if x' = x \<and> y' = y then c else cellAt g x' y'))"
proof -
  from assms(2) have y: "nat y < sz" and x: "nat x < sz" and xy: "0 \<le> x" "0 \<le> y"
    by (auto simp: inside_def)
  from assms(1) y have len: "length (g ! nat y) = sz" by (rule square_row)
  let ?g' = "g[nat y := (g ! nat y)[nat x := c]]"
  have w: "write_cell g x y c = Inr ?g'"
    using assms len by (simp add: write_cell_def row_at_square inside_def)
  have sq: "square sz ?g'"
    using assms(1) len y
    by (auto simp: square_def list_all_length nth_list_update)
  have cells: "cellAt ?g' x' y' = (if x' = x \<and> y' = y then c else cellAt g x' y')"
    if "inside sz x' y'" for x' y'
  proof -
    from that have b: "nat y' < sz" "nat x' < sz" "0 \<le> x'" "0 \<le> y'"
      by (auto simp: inside_def)
    from assms(1) have lg: "length g = sz" by (rule square_length)
    show ?thesis
      using b xy x y len lg by (auto simp: cellAt_def nth_list_update)
  qed
  from w sq cells show ?thesis by blast
qed

lemma placeWord_from_square:
  assumes "square sz g" and "dx \<noteq> 0 \<or> dy \<noteq> 0"
    and "\<forall>j. i \<le> j \<and> j < length w \<longrightarrow> inside sz (sx + int j * dx) (sy + int j * dy)"
  shows "\<exists>g'. placeWord_from g w sx sy dx dy i = Inr g' \<and> square sz g' \<and>
           (\<forall>x y. inside sz x y \<longrightarrow>
              (\<forall>j. i \<le> j \<and> j < length w \<and> x = sx + int j * dx \<and> y = sy + int j * dy
                   \<longrightarrow> cellAt g' x y = [w ! j]) \<and>
              ((\<forall>j. i \<le> j \<and> j < length w \<longrightarrow> \<not> (x = sx + int j * dx \<and> y = sy + int j * dy))
                   \<longrightarrow> cellAt g' x y = cellAt g x y))"
  using assms
proof (induction g w sx sy dx dy i rule: placeWord_from.induct)
  case (1 g word startX startY dx dy i)
  show ?case
  proof (cases "i < length word")
    case False
    then show ?thesis using "1.prems"(1) by (subst placeWord_from.simps) auto
  next
    case len: True
    let ?x = "startX + int i * dx" and ?y = "startY + int i * dy"
    have ins: "inside sz ?x ?y" using "1.prems"(3) len by simp
    from write_cell_square[OF "1.prems"(1) ins, of "[word ! i]"]
    obtain g1 where w: "write_cell g ?x ?y [word ! i] = Inr g1" and sq1: "square sz g1"
      and c1: "\<And>x' y'. inside sz x' y' \<Longrightarrow>
                 cellAt g1 x' y' = (if x' = ?x \<and> y' = ?y then [word ! i] else cellAt g x' y')"
      by blast
    have rest: "\<forall>j. Suc i \<le> j \<and> j < length word \<longrightarrow>
                  inside sz (startX + int j * dx) (startY + int j * dy)"
      using "1.prems"(3) by (simp add: Suc_le_eq)
    from "1.IH"[OF len refl refl w sq1 "1.prems"(2) rest]
    obtain g' where r: "placeWord_from g1 word startX startY dx dy (Suc i) = Inr g'"
      and sq': "square sz g'"
      and on: "\<And>x y j. inside sz x y \<Longrightarrow> Suc i \<le> j \<Longrightarrow> j < length word \<Longrightarrow>
                 x = startX + int j * dx \<Longrightarrow> y = startY + int j * dy \<Longrightarrow>
                 cellAt g' x y = [word ! j]"
      and off: "\<And>x y. inside sz x y \<Longrightarrow>
                 (\<forall>j. Suc i \<le> j \<and> j < length word \<longrightarrow>
                    \<not> (x = startX + int j * dx \<and> y = startY + int j * dy)) \<Longrightarrow>
                 cellAt g' x y = cellAt g1 x y"
      by blast
    have eq: "placeWord_from g word startX startY dx dy i = Inr g'"
      using len w r by (subst placeWord_from.simps) (simp add: Let_def)
    have here: "cellAt g' ?x ?y = [word ! i]"
    proof -
      have "\<forall>j. Suc i \<le> j \<and> j < length word \<longrightarrow>
              \<not> (?x = startX + int j * dx \<and> ?y = startY + int j * dy)"
        using step_inj[OF "1.prems"(2)] by (metis Suc_n_not_le_n)
      from off[OF ins this] c1[OF ins] show ?thesis by simp
    qed
    have A: "cellAt g' x y = [word ! j]"
      if "inside sz x y" "i \<le> j" "j < length word"
         "x = startX + int j * dx" "y = startY + int j * dy" for x y j
    proof (cases "j = i")
      case True
      with here that show ?thesis by simp
    next
      case False
      with that have "Suc i \<le> j" by simp
      with on that show ?thesis by blast
    qed
    have B: "cellAt g' x y = cellAt g x y"
      if "inside sz x y"
         "\<forall>j. i \<le> j \<and> j < length word \<longrightarrow>
              \<not> (x = startX + int j * dx \<and> y = startY + int j * dy)" for x y
    proof -
      have "cellAt g' x y = cellAt g1 x y"
        using that by (intro off) (auto simp: Suc_le_eq)
      moreover have "\<not> (x = ?x \<and> y = ?y)" using that(2) len by blast
      ultimately show ?thesis using c1[OF that(1)] by auto
    qed
    from eq sq' A B show ?thesis by blast
  qed
qed

subsection \<open>Grids that keep their letters\<close>

lemma keepsLetters_cellAt:
  "keepsLetters sz g g' =
     (\<forall>x y. inside sz x y \<longrightarrow> cellAt g x y \<noteq> [] \<longrightarrow> cellAt g' x y = cellAt g x y)"
proof
  assume k: "keepsLetters sz g g'"
  show "\<forall>x y. inside sz x y \<longrightarrow> cellAt g x y \<noteq> [] \<longrightarrow> cellAt g' x y = cellAt g x y"
  proof (intro allI impI)
    fix x y assume "inside sz x y" "cellAt g x y \<noteq> []"
    then have "nat y \<in> {0..<sz}" "nat x \<in> {0..<sz}" "g ! nat y ! nat x \<noteq> []"
      by (auto simp: inside_def cellAt_def)
    with k show "cellAt g' x y = cellAt g x y"
      unfolding keepsLetters_def cellAt_def by blast
  qed
next
  assume a: "\<forall>x y. inside sz x y \<longrightarrow> cellAt g x y \<noteq> [] \<longrightarrow> cellAt g' x y = cellAt g x y"
  show "keepsLetters sz g g'"
    unfolding keepsLetters_def
  proof (intro ballI impI)
    fix y x assume "y \<in> {0..<sz}" "x \<in> {0..<sz}" "g ! y ! x \<noteq> []"
    then have "inside sz (int x) (int y)" "cellAt g (int x) (int y) \<noteq> []"
      by (auto simp: inside_def cellAt_def)
    with a have "cellAt g' (int x) (int y) = cellAt g (int x) (int y)" by blast
    then show "g' ! y ! x = g ! y ! x" by (simp add: cellAt_def)
  qed
qed

lemma keepsLetters_refl: "keepsLetters sz g g"
  by (simp add: keepsLetters_def)

lemma keepsLetters_trans:
  "keepsLetters sz g g' \<Longrightarrow> keepsLetters sz g' g'' \<Longrightarrow> keepsLetters sz g g''"
  unfolding keepsLetters_def by (metis)

lemma traceable_keeps:
  assumes "traceable sz g w" and "keepsLetters sz g g'"
  shows "traceable sz g' w"
proof -
  from assms(1) obtain x y dx dy where xy: "x \<in> {0..<sz}" "y \<in> {0..<sz}"
    and d: "(dx, dy) \<in> set directions"
    and run: "\<forall>i \<in> {0..<length w}.
          inside sz (int x + int i * dx) (int y + int i * dy) \<and>
          cellAt g (int x + int i * dx) (int y + int i * dy) = [w ! i]"
    unfolding traceable_def by blast
  have "\<forall>i \<in> {0..<length w}.
          inside sz (int x + int i * dx) (int y + int i * dy) \<and>
          cellAt g' (int x + int i * dx) (int y + int i * dy) = [w ! i]"
  proof
    fix i assume "i \<in> {0..<length w}"
    with run have a: "inside sz (int x + int i * dx) (int y + int i * dy)"
      and b: "cellAt g (int x + int i * dx) (int y + int i * dy) = [w ! i]" by auto
    from assms(2) a b
    have "cellAt g' (int x + int i * dx) (int y + int i * dy) = [w ! i]"
      by (simp add: keepsLetters_cellAt)
    with a show "inside sz (int x + int i * dx) (int y + int i * dy) \<and>
          cellAt g' (int x + int i * dx) (int y + int i * dy) = [w ! i]" by simp
  qed
  with xy d show ?thesis unfolding traceable_def by blast
qed

subsection \<open>An accepted placement\<close>

lemma placeWord_valid:
  assumes sq: "square sz g" and nz: "dx \<noteq> 0 \<or> dy \<noteq> 0"
    and ok: "validPlacement g w x y dx dy sz"
  shows "\<exists>g'. placeWord g w x y dx dy = Inr g' \<and> square sz g' \<and> keepsLetters sz g g' \<and>
           (\<forall>i < length w. cellAt g' (x + int i * dx) (y + int i * dy) = [w ! i]) \<and>
           (\<forall>x' y'. inside sz x' y' \<longrightarrow>
              cellAt g' x' y' = cellAt g x' y' \<or> (\<exists>i < length w. cellAt g' x' y' = [w ! i])) \<and>
           (\<forall>x' y'. inside sz x' y' \<longrightarrow>
              (\<forall>i < length w. \<not> (x' = x + int i * dx \<and> y' = y + int i * dy)) \<longrightarrow>
              cellAt g' x' y' = cellAt g x' y')"
proof -
  from ok have ins: "\<forall>j. 0 \<le> j \<and> j < length w \<longrightarrow> inside sz (x + int j * dx) (y + int j * dy)"
    by (simp add: validPlacement_def)
  from placeWord_from_square[OF sq nz ins]
  obtain g' where r: "placeWord_from g w x y dx dy 0 = Inr g'" and sq': "square sz g'"
    and on: "\<And>x' y' j. inside sz x' y' \<Longrightarrow> j < length w \<Longrightarrow>
               x' = x + int j * dx \<Longrightarrow> y' = y + int j * dy \<Longrightarrow> cellAt g' x' y' = [w ! j]"
    and off: "\<And>x' y'. inside sz x' y' \<Longrightarrow>
               (\<forall>j. j < length w \<longrightarrow> \<not> (x' = x + int j * dx \<and> y' = y + int j * dy)) \<Longrightarrow>
               cellAt g' x' y' = cellAt g x' y'"
    by auto
  have run: "\<forall>i < length w. cellAt g' (x + int i * dx) (y + int i * dy) = [w ! i]"
    using on ins by simp
  have origin: "cellAt g' x' y' = cellAt g x' y' \<or> (\<exists>i < length w. cellAt g' x' y' = [w ! i])"
    if "inside sz x' y'" for x' y'
    using on[OF that] off[OF that] by blast
  have keep: "cellAt g' x' y' = cellAt g x' y'"
    if "inside sz x' y'" "cellAt g x' y' \<noteq> []" for x' y'
  proof (cases "\<exists>j < length w. x' = x + int j * dx \<and> y' = y + int j * dy")
    case True
    then obtain j where j: "j < length w" "x' = x + int j * dx" "y' = y + int j * dy" by blast
    with ok that(2) have "cellAt g x' y' = [w ! j]" by (auto simp: validPlacement_def)
    moreover have "cellAt g' x' y' = [w ! j]" using on[OF that(1) j] .
    ultimately show ?thesis by simp
  next
    case False
    then show ?thesis using off[OF that(1)] by blast
  qed
  from r sq' run origin keep off show ?thesis
    by (simp add: placeWord_def keepsLetters_cellAt)
qed

subsection \<open>The retry loop\<close>

lemma directions_nonzero:
  "(dx, dy) \<in> set directions \<Longrightarrow> dx \<noteq> 0 \<or> dy \<noteq> 0"
  by (auto simp: directions_def)

lemma random_below_less: "0 < n \<Longrightarrow> random_below rnd k n < n"
  by (simp add: random_below_def)

lemma direction_drawn: "directions ! random_below rnd k (length directions) \<in> set directions"
  by (rule nth_mem) (simp add: random_below_less directions_def)

lemma candidate_shift: "candidate rnd sz (k + 3) j = candidate rnd sz k (Suc j)"
  by (simp add: candidate_def add.assoc add.commute add.left_commute)

lemma find_map_option: "find P (map f xs) = map_option f (find (\<lambda>x. P (f x)) xs)"
  by (induction xs) simp_all

lemma find_upt_Suc:
  "find P [0..<Suc n] = (if P 0 then Some 0 else map_option Suc (find (\<lambda>j. P (Suc j)) [0..<n]))"
proof -
  have "[0..<Suc n] = 0 # map Suc [0..<n]"
    by (simp add: upt_conv_Cons map_Suc_upt del: upt_Suc)
  then show ?thesis by (simp add: find_map_option del: upt_Suc)
qed

lemma placeLoop_placed: "placeLoop rnd sz word st True attempts = Inr (st, True)"
  by (subst placeLoop.simps) simp

lemma placeLoop_find:
  "square sz (grid st) \<Longrightarrow> n = maxAttempts - attempts \<Longrightarrow>
   placeLoop rnd sz word st False attempts = placeResult rnd sz word st n"
proof (induction n arbitrary: st attempts)
  case 0
  then have "\<not> attempts < maxAttempts" by simp
  then have "placeLoop rnd sz word st False attempts = Inr (st, False)"
    by (subst placeLoop.simps) simp
  then show ?case by (simp add: placeResult_def)
next
  case (Suc n)
  then have lt: "attempts < maxAttempts" and n: "n = maxAttempts - Suc attempts" by simp_all
  obtain dx dy x y where c: "candidate rnd sz (calls st) 0 = ((dx, dy), x, y)"
    by (metis prod_cases3 surj_pair)
  then have d: "directions ! random_below rnd (calls st) (length directions) = (dx, dy)"
    and x: "int (random_below rnd (calls st + 1) sz) = x"
    and y: "int (random_below rnd (calls st + 2) sz) = y"
    by (simp_all add: candidate_def)
  let ?st1 = "st\<lparr>calls := calls st + 3\<rparr>"
  have can: "canPlaceWord (grid st) word x y dx dy sz = Inr (validPlacement (grid st) word x y dx dy sz)"
    using Suc.prems(1) by (rule canPlaceWord_valid)
  show ?case
  proof (cases "validPlacement (grid st) word x y dx dy sz")
    case True
    then have ok0: "candidateOk (grid st) word sz (candidate rnd sz (calls st) 0)"
      by (simp add: candidateOk_def c)
    have "placeLoop rnd sz word st False attempts =
            (case placeWord (grid st) word x y dx dy of
               Inl e \<Rightarrow> Inl e
             | Inr g' \<Rightarrow> Inr (st\<lparr>grid := g', placedWords := placedWords st @ [word],
                              calls := calls st + 3\<rparr>, True))"
      using lt d x y can True
      by (subst placeLoop.simps) (simp add: Let_def placeLoop_placed split: sum.splits)
    moreover have "placeResult rnd sz word st (Suc n) =
            (case placeWord (grid st) word x y dx dy of
               Inl e \<Rightarrow> Inl e
             | Inr g' \<Rightarrow> Inr (st\<lparr>grid := g', placedWords := placedWords st @ [word],
                              calls := calls st + 3\<rparr>, True))"
      unfolding placeResult_def find_upt_Suc using ok0 c by (simp split: sum.splits)
    ultimately show ?thesis by simp
  next
    case False
    then have ok0: "\<not> candidateOk (grid st) word sz (candidate rnd sz (calls st) 0)"
      by (simp add: candidateOk_def c)
    have "placeLoop rnd sz word st False attempts = placeLoop rnd sz word ?st1 False (Suc attempts)"
      using lt d x y can False
      by (subst placeLoop.simps) (simp add: Let_def)
    also have "\<dots> = placeResult rnd sz word ?st1 n"
      using Suc.prems(1) n by (intro Suc.IH) simp_all
    also have "\<dots> = placeResult rnd sz word st (Suc n)"
      unfolding placeResult_def find_upt_Suc using ok0
      by (simp add: candidate_shift[symmetric] add.assoc split: option.splits prod.splits sum.splits)
    finally show ?thesis .
  qed
qed

lemma candidate_range:
  assumes "candidate rnd sz k j = ((dx, dy), x, y)"
  shows "(dx, dy) \<in> set directions" and "0 \<le> x" and "0 \<le> y"
    and "0 < sz \<Longrightarrow> x < int sz" and "0 < sz \<Longrightarrow> y < int sz"
  using assms direction_drawn[of rnd "k + 3 * j"]
    random_below_less[of sz rnd "k + 3 * j + 1"] random_below_less[of sz rnd "k + 3 * j + 2"]
  by (auto simp: candidate_def)

lemma find_upt_None:
  "find P [0..<n] = None \<longleftrightarrow> (\<forall>j < n. \<not> P j)"
  by (auto simp: find_None_iff)

lemma find_upt_Some:
  "find P [0..<n] = Some j \<longleftrightarrow> (j < n \<and> P j \<and> (\<forall>j' < j. \<not> P j'))"
proof -
  have "find P [0..<n] = Some j \<longleftrightarrow>
          (\<exists>i<n. P ([0..<n] ! i) \<and> j = [0..<n] ! i \<and> (\<forall>j'<i. \<not> P ([0..<n] ! j')))"
    by (simp add: find_Some_iff)
  also have "\<dots> \<longleftrightarrow> (j < n \<and> P j \<and> (\<forall>j' < j. \<not> P j'))"
    by auto
  finally show ?thesis .
qed

lemma tryPlaceWord_cases:
  assumes sq: "square sz (grid st)"
  obtains
    (too_long) "sz < length word"
      "tryPlaceWord rnd sz st word = Inr (st\<lparr>warnings := warnings st @ [TooLong word]\<rparr>)"
  | (failed) "length word \<le> sz"
      "\<forall>j < maxAttempts. \<not> candidateOk (grid st) word sz (candidate rnd sz (calls st) j)"
      "tryPlaceWord rnd sz st word =
         Inr (st\<lparr>calls := calls st + 3 * maxAttempts,
                  warnings := warnings st @ [CouldNotPlace word maxAttempts]\<rparr>)"
  | (placed) j dx dy x y g' where "length word \<le> sz" "j < maxAttempts"
      "candidate rnd sz (calls st) j = ((dx, dy), x, y)"
      "validPlacement (grid st) word x y dx dy sz"
      "\<forall>j' < j. \<not> candidateOk (grid st) word sz (candidate rnd sz (calls st) j')"
      "placeWord (grid st) word x y dx dy = Inr g'"
      "tryPlaceWord rnd sz st word =
         Inr (st\<lparr>grid := g', placedWords := placedWords st @ [word],
                  calls := calls st + 3 * Suc j\<rparr>)"
proof (cases "sz < length word")
  case True
  then show ?thesis by (intro too_long) (simp_all add: tryPlaceWord_def)
next
  case short: False
  let ?P = "\<lambda>j. candidateOk (grid st) word sz (candidate rnd sz (calls st) j)"
  have loop: "placeLoop rnd sz word st False 0 = placeResult rnd sz word st maxAttempts"
    using sq by (rule placeLoop_find) simp
  show ?thesis
  proof (cases "find ?P [0..<maxAttempts]")
    case None
    then have none: "\<forall>j < maxAttempts. \<not> ?P j" by (simp add: find_upt_None)
    have "tryPlaceWord rnd sz st word =
         Inr (st\<lparr>calls := calls st + 3 * maxAttempts,
                  warnings := warnings st @ [CouldNotPlace word maxAttempts]\<rparr>)"
      using short None by (simp add: tryPlaceWord_def loop placeResult_def)
    with short none show ?thesis by (intro failed) simp_all
  next
    case (Some j)
    then have j: "j < maxAttempts" "?P j" "\<forall>j' < j. \<not> ?P j'"
      by (simp_all add: find_upt_Some)
    obtain dx dy x y where c: "candidate rnd sz (calls st) j = ((dx, dy), x, y)"
      by (metis prod_cases3 surj_pair)
    with j(2) have v: "validPlacement (grid st) word x y dx dy sz"
      by (simp add: candidateOk_def)
    from candidate_range(1)[OF c] have "dx \<noteq> 0 \<or> dy \<noteq> 0" by (rule directions_nonzero)
    from placeWord_valid[OF sq this v]
    obtain g' where g': "placeWord (grid st) word x y dx dy = Inr g'" by blast
    have "tryPlaceWord rnd sz st word =
         Inr (st\<lparr>grid := g', placedWords := placedWords st @ [word],
                  calls := calls st + 3 * Suc j\<rparr>)"
      using short Some c g' by (simp add: tryPlaceWord_def loop placeResult_def)
    with short j c v g' show ?thesis by (intro placed) simp_all
  qed
qed

lemma tryPlaceWord_step:
  assumes sq: "square sz (grid st)"
  shows "\<exists>st'. tryPlaceWord rnd sz st word = Inr st' \<and> square sz (grid st') \<and>
           keepsLetters sz (grid st) (grid st') \<and> originOk sz (grid st) (grid st') word \<and>
           calls st \<le> calls st' \<and> calls st' \<le> calls st + 3 * maxAttempts \<and>
           ((placedWords st' = placedWords st @ [word] \<and> warnings st' = warnings st \<and>
             length word \<le> sz \<and> (0 < sz \<longrightarrow> traceable sz (grid st') word)) \<or>
            (placedWords st' = placedWords st \<and> grid st' = grid st \<and>
             (if sz < length word then warnings st' = warnings st @ [TooLong word]
              else warnings st' = warnings st @ [CouldNotPlace word maxAttempts])))"
  using sq
proof (cases rule: tryPlaceWord_cases[where rnd = rnd and word = word])
  case too_long
  then show ?thesis using sq by (simp add: keepsLetters_refl originOk_def)
next
  case failed
  then show ?thesis using sq by (simp add: keepsLetters_refl originOk_def)
next
  case (placed j dx dy x y g')
  from candidate_range[OF placed(3)]
  have d: "(dx, dy) \<in> set directions" and x0: "0 \<le> x" and y0: "0 \<le> y"
    and xs: "0 < sz \<Longrightarrow> x < int sz" and ys: "0 < sz \<Longrightarrow> y < int sz" by blast+
  from d have nz: "dx \<noteq> 0 \<or> dy \<noteq> 0" by (rule directions_nonzero)
  from placeWord_valid[OF sq nz placed(4)] placed(6)
  have sq': "square sz g'" and keep: "keepsLetters sz (grid st) g'"
    and run: "\<forall>i < length word. cellAt g' (x + int i * dx) (y + int i * dy) = [word ! i]"
    and origin: "originOk sz (grid st) g' word"
    by (auto simp: originOk_def)
  have tr: "traceable sz g' word" if "0 < sz"
  proof -
    have "nat x \<in> {0..<sz}" "nat y \<in> {0..<sz}" using xs ys x0 y0 that by auto
    moreover have "\<forall>i \<in> {0..<length word}.
          inside sz (int (nat x) + int i * dx) (int (nat y) + int i * dy) \<and>
          cellAt g' (int (nat x) + int i * dx) (int (nat y) + int i * dy) = [word ! i]"
      using run placed(4) x0 y0 by (simp add: validPlacement_def)
    ultimately show ?thesis using d unfolding traceable_def by blast
  qed
  have "j < maxAttempts" by fact
  then have "3 * Suc j \<le> 3 * maxAttempts" by simp
  then show ?thesis using placed(1,7) sq' keep origin tr by simp
qed

subsection \<open>The word loop\<close>

lemma placeWords_ok:
  "square sz (grid st) \<Longrightarrow>
   \<exists>st'. placeWords rnd sz st ws = Inr st' \<and> square sz (grid st') \<and>
         keepsLetters sz (grid st) (grid st') \<and> calls st \<le> calls st' \<and>
         calls st' \<le> calls st + 3 * maxAttempts * length ws"
proof (induction ws arbitrary: st)
  case Nil
  then show ?case by (simp add: keepsLetters_refl)
next
  case (Cons w ws)
  from tryPlaceWord_step[OF Cons.prems, of rnd w]
  obtain st1 where 1: "tryPlaceWord rnd sz st w = Inr st1" "square sz (grid st1)"
    "keepsLetters sz (grid st) (grid st1)" "calls st \<le> calls st1"
    "calls st1 \<le> calls st + 3 * maxAttempts" by blast
  from Cons.IH[OF 1(2)]
  obtain st' where 2: "placeWords rnd sz st1 ws = Inr st'" "square sz (grid st')"
    "keepsLetters sz (grid st1) (grid st')" "calls st1 \<le> calls st'"
    "calls st' \<le> calls st1 + 3 * maxAttempts * length ws" by blast
  have "placeWords rnd sz st (w # ws) = Inr st'" using 1(1) 2(1) by simp
  moreover have "keepsLetters sz (grid st) (grid st')"
    using 1(3) 2(3) by (rule keepsLetters_trans)
  moreover have "calls st' \<le> calls st + 3 * maxAttempts * length (w # ws)"
    using 1(5) 2(5) by simp
  ultimately show ?case using 2(2) 1(4) 2(4) by auto
qed

lemma placeWords_traceable:
  assumes "square sz (grid st)" and "0 < sz"
    and "\<forall>w \<in> set (placedWords st). traceable sz (grid st) w"
    and "placeWords rnd sz st ws = Inr st'"
  shows "\<forall>w \<in> set (placedWords st'). traceable sz (grid st') w"
  using assms
proof (induction ws arbitrary: st)
  case Nil
  then show ?case by simp
next
  case (Cons w ws)
  from tryPlaceWord_step[OF Cons.prems(1), of rnd w]
  obtain st1 where 1: "tryPlaceWord rnd sz st w = Inr st1" "square sz (grid st1)"
    "keepsLetters sz (grid st) (grid st1)"
    "(placedWords st1 = placedWords st @ [w] \<and> (0 < sz \<longrightarrow> traceable sz (grid st1) w)) \<or>
     placedWords st1 = placedWords st" by blast
  have "\<forall>v \<in> set (placedWords st1). traceable sz (grid st1) v"
    using 1(3,4) Cons.prems(2,3) by (auto intro: traceable_keeps)
  moreover have "placeWords rnd sz st1 ws = Inr st'" using Cons.prems(4) 1(1) by simp
  ultimately show ?case using Cons.IH[OF 1(2) Cons.prems(2)] by blast
qed

subsection \<open>The fill pass\<close>

lemma random_letter: "isLetter [letters ! random_below rnd k (length letters)]"
proof -
  have "random_below rnd k (length letters) < length letters"
    by (rule random_below_less) (simp add: letters_def)
  then show ?thesis unfolding isLetter_def using nth_mem by blast
qed

lemma fillRow_props:
  "fillRow rnd row x k = (row', k') \<Longrightarrow>
   length row' = length row \<and> k \<le> k' \<and>
   (\<forall>j < length row.
      (j < x \<or> row ! j \<noteq> [] \<longrightarrow> row' ! j = row ! j) \<and>
      (x \<le> j \<and> row ! j = [] \<longrightarrow> isLetter (row' ! j)))"
proof (induction rnd row x k rule: fillRow.induct)
  case (1 rnd row x k)
  show ?case
  proof (cases "x < length row")
    case False
    with "1.prems" show ?thesis by (subst (asm) fillRow.simps) auto
  next
    case len: True
    show ?thesis
    proof (cases "row ! x = []")
      case False
      with len "1.prems" have r: "fillRow rnd row (Suc x) k = (row', k')"
        by (subst (asm) fillRow.simps) simp
      from "1.IH"(2)[OF len False r]
      have ih: "length row' = length row" "k \<le> k'"
        "\<And>j. j < length row \<Longrightarrow> (j < Suc x \<or> row ! j \<noteq> [] \<longrightarrow> row' ! j = row ! j) \<and>
              (Suc x \<le> j \<and> row ! j = [] \<longrightarrow> isLetter (row' ! j))"
        by auto
      have "(j < x \<or> row ! j \<noteq> [] \<longrightarrow> row' ! j = row ! j) \<and>
            (x \<le> j \<and> row ! j = [] \<longrightarrow> isLetter (row' ! j))" if "j < length row" for j
        using ih(3)[OF that] False by (cases "j = x") auto
      with ih(1,2) show ?thesis by blast
    next
      case True
      let ?c = "[letters ! random_below rnd k (length letters)]"
      let ?row1 = "row[x := ?c]"
      from len True "1.prems" have r: "fillRow rnd ?row1 (Suc x) (Suc k) = (row', k')"
        by (subst (asm) fillRow.simps) (simp add: Let_def)
      from "1.IH"(1)[OF len True refl r]
      have ih: "length row' = length row" "Suc k \<le> k'"
        "\<And>j. j < length row \<Longrightarrow> (j < Suc x \<or> ?row1 ! j \<noteq> [] \<longrightarrow> row' ! j = ?row1 ! j) \<and>
              (Suc x \<le> j \<and> ?row1 ! j = [] \<longrightarrow> isLetter (row' ! j))"
        by auto
      have "(j < x \<or> row ! j \<noteq> [] \<longrightarrow> row' ! j = row ! j) \<and>
            (x \<le> j \<and> row ! j = [] \<longrightarrow> isLetter (row' ! j))" if "j < length row" for j
      proof (cases "j = x")
        case True
        with ih(3)[OF that] len have "row' ! j = ?c" by simp
        with True \<open>row ! x = []\<close> show ?thesis by (simp add: random_letter)
      next
        case False
        with ih(3)[OF that] show ?thesis by (auto simp: nth_list_update)
      qed
      with ih(1,2) show ?thesis by auto
    qed
  qed
qed

lemma fillRows_props:
  "fillRows rnd g y k = (g', k') \<Longrightarrow>
   length g' = length g \<and> k \<le> k' \<and>
   (\<forall>i < length g. length (g' ! i) = length (g ! i) \<and>
      (\<forall>j < length (g ! i).
         (i < y \<or> g ! i ! j \<noteq> [] \<longrightarrow> g' ! i ! j = g ! i ! j) \<and>
         (y \<le> i \<and> g ! i ! j = [] \<longrightarrow> isLetter (g' ! i ! j))))"
proof (induction rnd g y k rule: fillRows.induct)
  case (1 rnd g y k)
  show ?case
  proof (cases "y < length g")
    case False
    with "1.prems" show ?thesis by (subst (asm) fillRows.simps) auto
  next
    case len: True
    obtain row1 k1 where f: "fillRow rnd (g ! y) 0 k = (row1, k1)" by fastforce
    let ?g1 = "g[y := row1]"
    from len f "1.prems" have r: "fillRows rnd ?g1 (Suc y) k1 = (g', k')"
      by (subst (asm) fillRows.simps) simp
    from fillRow_props[OF f]
    have row: "length row1 = length (g ! y)" "k \<le> k1"
      "\<And>j. j < length (g ! y) \<Longrightarrow> (g ! y ! j \<noteq> [] \<longrightarrow> row1 ! j = g ! y ! j) \<and>
            (g ! y ! j = [] \<longrightarrow> isLetter (row1 ! j))"
      by auto
    from "1.IH"[OF len f[symmetric] r]
    have ih: "length g' = length g" "k1 \<le> k'"
      "\<And>i j. i < length g \<Longrightarrow> length (g' ! i) = length (?g1 ! i)"
      "\<And>i j. i < length g \<Longrightarrow> j < length (?g1 ! i) \<Longrightarrow>
         (i < Suc y \<or> ?g1 ! i ! j \<noteq> [] \<longrightarrow> g' ! i ! j = ?g1 ! i ! j) \<and>
         (Suc y \<le> i \<and> ?g1 ! i ! j = [] \<longrightarrow> isLetter (g' ! i ! j))"
      by auto
    have lens: "length (g' ! i) = length (g ! i)" if "i < length g" for i
      using ih(3)[OF that] row(1) that by (cases "i = y") simp_all
    have cells: "(i < y \<or> g ! i ! j \<noteq> [] \<longrightarrow> g' ! i ! j = g ! i ! j) \<and>
         (y \<le> i \<and> g ! i ! j = [] \<longrightarrow> isLetter (g' ! i ! j))"
      if "i < length g" "j < length (g ! i)" for i j
    proof (cases "i = y")
      case True
      with that row(1) have j1: "j < length (?g1 ! i)" by simp
      from ih(4)[OF that(1) j1] True len have "g' ! i ! j = row1 ! j" by simp
      with row(3)[of j] that True show ?thesis by auto
    next
      case False
      with that have j1: "j < length (?g1 ! i)" by simp
      from ih(4)[OF that(1) j1] False show ?thesis by auto
    qed
    from ih(1,2) row(2) lens cells show ?thesis by auto
  qed
qed

lemma fillEmptyCells_props:
  assumes "fillEmptyCells rnd g k = (g', k')" and "square sz g"
  shows "square sz g'" and "keepsLetters sz g g'" and "k \<le> k'"
    and "\<forall>y < sz. \<forall>x < sz. if g ! y ! x = [] then isLetter (g' ! y ! x) else g' ! y ! x = g ! y ! x"
proof -
  from assms(1) have f: "fillRows rnd g 0 k = (g', k')" by (simp add: fillEmptyCells_def)
  from assms(2) have lg: "length g = sz" and lr: "\<And>i. i < sz \<Longrightarrow> length (g ! i) = sz"
    by (simp_all add: square_def list_all_length)
  from fillRows_props[OF f] lg lr
  have p: "length g' = sz" "k \<le> k'" "\<And>i. i < sz \<Longrightarrow> length (g' ! i) = sz"
    "\<And>i j. i < sz \<Longrightarrow> j < sz \<Longrightarrow>
       (g ! i ! j \<noteq> [] \<longrightarrow> g' ! i ! j = g ! i ! j) \<and> (g ! i ! j = [] \<longrightarrow> isLetter (g' ! i ! j))"
    by auto
  show "square sz g'" using p(1,3) by (simp add: square_def list_all_length)
  show "keepsLetters sz g g'" using p(4) by (simp add: keepsLetters_def)
  show "k \<le> k'" by fact
  show "\<forall>y < sz. \<forall>x < sz. if g ! y ! x = [] then isLetter (g' ! y ! x) else g' ! y ! x = g ! y ! x"
    using p(4) by simp
qed

subsection \<open>What the word loop records\<close>

lemma square_emptyGrid: "square sz (emptyGrid sz)"
  by (simp add: square_def emptyGrid_def list_all_length)

lemma cellsFrom_emptyGrid: "cellsFrom sz (emptyGrid sz) ws"
  by (auto simp: cellsFrom_def emptyGrid_def cellAt_def inside_def)

lemma placeWords_append:
  "placeWords rnd sz st (ws1 @ ws2) =
     (case placeWords rnd sz st ws1 of Inl e \<Rightarrow> Inl e | Inr st1 \<Rightarrow> placeWords rnd sz st1 ws2)"
  by (induction ws1 arbitrary: st) (simp_all split: sum.splits)

lemma placeWords_cells:
  assumes "square sz (grid st)" and "cellsFrom sz (grid st) (placedWords st)"
    and "placeWords rnd sz st ws = Inr st'"
  shows "cellsFrom sz (grid st') (placedWords st')"
  using assms
proof (induction ws arbitrary: st)
  case Nil
  then show ?case by simp
next
  case (Cons w ws)
  from tryPlaceWord_step[OF Cons.prems(1), of rnd w]
  obtain st1 where 1: "tryPlaceWord rnd sz st w = Inr st1" "square sz (grid st1)"
    "originOk sz (grid st) (grid st1) w"
    "placedWords st1 = placedWords st @ [w] \<or>
     (placedWords st1 = placedWords st \<and> grid st1 = grid st)" by blast
  have "cellsFrom sz (grid st1) (placedWords st1)"
    using 1(4)
  proof
    assume p: "placedWords st1 = placedWords st @ [w]"
    show ?thesis
      unfolding cellsFrom_def
    proof (intro allI impI)
      fix x y assume ins: "inside sz x y"
      from 1(3) ins have "cellAt (grid st1) x y = cellAt (grid st) x y \<or>
          (\<exists>i < length w. cellAt (grid st1) x y = [w ! i])" by (simp add: originOk_def)
      then show "cellAt (grid st1) x y = [] \<or>
          (\<exists>v \<in> set (placedWords st1). \<exists>l \<in> set v. cellAt (grid st1) x y = [l])"
      proof
        assume "cellAt (grid st1) x y = cellAt (grid st) x y"
        with Cons.prems(2) ins p show ?thesis by (auto simp: cellsFrom_def)
      next
        assume "\<exists>i < length w. cellAt (grid st1) x y = [w ! i]"
        then obtain i where "i < length w" "cellAt (grid st1) x y = [w ! i]" by blast
        then have "\<exists>l \<in> set w. cellAt (grid st1) x y = [l]" using nth_mem by blast
        with p show ?thesis by simp
      qed
    qed
  next
    assume "placedWords st1 = placedWords st \<and> grid st1 = grid st"
    with Cons.prems(2) show ?thesis by simp
  qed
  moreover have "placeWords rnd sz st1 ws = Inr st'" using Cons.prems(3) 1(1) by simp
  ultimately show ?case using Cons.IH[OF 1(2)] by blast
qed


lemma placeWords_too_long:
  assumes "square sz (grid st)" and "placeWords rnd sz st ws = Inr st'"
  shows "set (warnings st) \<subseteq> set (warnings st') \<and>
         (\<forall>w \<in> set ws. sz < length w \<longrightarrow> TooLong w \<in> set (warnings st')) \<and>
         set (placedWords st') \<subseteq> set (placedWords st) \<union> {w \<in> set ws. length w \<le> sz}"
  using assms
proof (induction ws arbitrary: st)
  case Nil
  then show ?case by simp
next
  case (Cons w ws)
  from tryPlaceWord_step[OF Cons.prems(1), of rnd w]
  obtain st1 where 1: "tryPlaceWord rnd sz st w = Inr st1" "square sz (grid st1)"
    "(placedWords st1 = placedWords st @ [w] \<and> warnings st1 = warnings st \<and> length w \<le> sz) \<or>
     (placedWords st1 = placedWords st \<and>
       (if sz < length w then warnings st1 = warnings st @ [TooLong w]
        else warnings st1 = warnings st @ [CouldNotPlace w maxAttempts]))" by blast
  have r: "placeWords rnd sz st1 ws = Inr st'" using Cons.prems(2) 1(1) by simp
  from Cons.IH[OF 1(2) r]
  have ih: "set (warnings st1) \<subseteq> set (warnings st')"
    "\<forall>v \<in> set ws. sz < length v \<longrightarrow> TooLong v \<in> set (warnings st')"
    "set (placedWords st') \<subseteq> set (placedWords st1) \<union> {v \<in> set ws. length v \<le> sz}" by auto
  have a: "set (warnings st) \<subseteq> set (warnings st1)"
    using 1(3) by (auto split: if_splits)
  have b: "sz < length w \<Longrightarrow> TooLong w \<in> set (warnings st1)"
    using 1(3) by (auto split: if_splits)
  have c: "set (placedWords st1) \<subseteq> set (placedWords st) \<union> {v \<in> set (w # ws). length v \<le> sz}"
    using 1(3) by (auto split: if_splits)
  from ih a b c show ?case by auto
qed

subsection \<open>The sort\<close>

lemma set_insertBy: "set (insertBy cmp a bs) = insert a (set bs)"
  by (induction bs) auto

lemma set_sortBy: "set (sortBy cmp as) = set as"
  by (induction as) (simp_all add: set_insertBy)








subsection \<open>Results of a whole run\<close>

lemma generateFrom_run:
  obtains st g k where "placeWords rnd sz (initialState sz) ws = Inr st"
    and "square sz (grid st)"
    and "fillEmptyCells rnd (grid st) (calls st) = (g, k)"
    and "generateFrom rnd ws sz = Inr (st\<lparr>grid := g, calls := k\<rparr>)"
proof -
  have sq0: "square sz (grid (initialState sz))"
    by (simp add: initialState_def square_emptyGrid)
  from placeWords_ok[OF sq0, of rnd ws]
  obtain st where st: "placeWords rnd sz (initialState sz) ws = Inr st" "square sz (grid st)"
    by blast
  obtain g k where f: "fillEmptyCells rnd (grid st) (calls st) = (g, k)" by fastforce
  have "generateFrom rnd ws sz = Inr (st\<lparr>grid := g, calls := k\<rparr>)"
    using st(1) f by (simp add: generateFrom_def initialState_def emptyGrid_def)
  with st f show ?thesis by (rule that)
qed

text \<open>
  Claim C1. For a positive size the generator returns, and every word of the
  returned \<open>placedWords\<close> can be read off the returned grid: there are a start
  cell \<open>(x, y)\<close> with \<open>x, y < sz\<close> and one of the eight directions \<open>(dx, dy)\<close>
  such that for each index \<open>i\<close> below the word's length the cell
  \<open>(x + i*dx, y + i*dy)\<close> lies in the grid and holds \<open>word[i]\<close>.
\<close>

theorem placed_words_traceable:
  assumes "0 < sz"
  shows "\<exists>res. generateWordSearch rnd words sz = Inr res \<and>
           (\<forall>word \<in> set (placedWords res).
              \<exists>x < sz. \<exists>y < sz. \<exists>(dx, dy) \<in> set directions.
                \<forall>i < length word.
                  0 \<le> int x + int i * dx \<and> int x + int i * dx < int sz \<and>
                  0 \<le> int y + int i * dy \<and> int y + int i * dy < int sz \<and>
                  grid res ! nat (int y + int i * dy) ! nat (int x + int i * dx) = [word ! i])"
proof -
  obtain st g k where run: "placeWords rnd sz (initialState sz) (sortBy byLength words) = Inr st"
    "square sz (grid st)" "fillEmptyCells rnd (grid st) (calls st) = (g, k)"
    "generateFrom rnd (sortBy byLength words) sz = Inr (st\<lparr>grid := g, calls := k\<rparr>)"
    by (rule generateFrom_run)
  have sq0: "square sz (grid (initialState sz))"
    by (simp add: initialState_def square_emptyGrid)
  have "\<forall>w \<in> set (placedWords (initialState sz)). traceable sz (grid (initialState sz)) w"
    by (simp add: initialState_def)
  from placeWords_traceable[OF sq0 assms this run(1)]
  have tr: "\<forall>w \<in> set (placedWords st). traceable sz (grid st) w" .
  have keep: "keepsLetters sz (grid st) g"
    using run(3,2) by (rule fillEmptyCells_props)
  have "\<forall>w \<in> set (placedWords st). traceable sz g w"
    using tr keep by (blast intro: traceable_keeps)
  then show ?thesis
    unfolding generateWordSearch_def run(4)
    by (simp add: traceable_def inside_def cellAt_def Bex_def Ball_def)
qed

text \<open>
  Claim C2, amended. For every word list and every size (the empty list and
  lists of over-long words included) the generator returns a grid of \<open>sz\<close>
  rows of \<open>sz\<close> cells in which every cell is a one-character string, never
  the empty string: a letter of A to Z, or a character of one of the words
  placed, copied as it is. When the words are made of the letters A to Z,
  every cell holds one letter of A to Z.
\<close>

theorem grid_fully_lettered:
  "\<exists>res. generateWordSearch rnd words sz = Inr res \<and>
     length (grid res) = sz \<and>
     (\<forall>row \<in> set (grid res). length row = sz \<and>
        (\<forall>c \<in> set row. (\<exists>l \<in> set letters. c = [l]) \<or>
           (\<exists>w \<in> set (placedWords res). \<exists>l \<in> set w. c = [l]))) \<and>
     set (placedWords res) \<subseteq> set words \<and>
     ((\<forall>w \<in> set words. \<forall>l \<in> set w. l \<in> set letters) \<longrightarrow>
        (\<forall>row \<in> set (grid res). \<forall>c \<in> set row. \<exists>l \<in> set letters. c = [l]))"
proof -
  obtain st g k where run: "placeWords rnd sz (initialState sz) (sortBy byLength words) = Inr st"
    "square sz (grid st)" "fillEmptyCells rnd (grid st) (calls st) = (g, k)"
    "generateFrom rnd (sortBy byLength words) sz = Inr (st\<lparr>grid := g, calls := k\<rparr>)"
    by (rule generateFrom_run)
  have sq0: "square sz (grid (initialState sz))"
    and c0: "cellsFrom sz (grid (initialState sz)) (placedWords (initialState sz))"
    by (simp_all add: initialState_def square_emptyGrid cellsFrom_emptyGrid)
  from placeWords_cells[OF sq0 c0 run(1)]
  have cells: "cellsFrom sz (grid st) (placedWords st)" .
  from placeWords_too_long[OF sq0 run(1)]
  have sub: "set (placedWords st) \<subseteq> set words"
    by (auto simp: set_sortBy initialState_def)
  from fillEmptyCells_props[OF run(3,2)]
  have sq: "square sz g"
    and fill: "\<forall>y < sz. \<forall>x < sz. if grid st ! y ! x = [] then isLetter (g ! y ! x)
                 else g ! y ! x = grid st ! y ! x" by blast+
  have all: "isLetter (g ! y ! x) \<or> (\<exists>w \<in> set (placedWords st). \<exists>l \<in> set w. g ! y ! x = [l])"
    if "y < sz" "x < sz" for x y
  proof (cases "grid st ! y ! x = []")
    case True
    with fill that show ?thesis by simp
  next
    case False
    from that have "inside sz (int x) (int y)" by (simp add: inside_def)
    with cells have "cellAt (grid st) (int x) (int y) = [] \<or>
        (\<exists>w \<in> set (placedWords st). \<exists>l \<in> set w. cellAt (grid st) (int x) (int y) = [l])"
      unfolding cellsFrom_def by blast
    with False have "\<exists>w \<in> set (placedWords st). \<exists>l \<in> set w. grid st ! y ! x = [l]"
      by (simp add: cellAt_def)
    with fill that False show ?thesis by simp
  qed
  have rows: "length row = sz \<and>
      (\<forall>c \<in> set row. (\<exists>l \<in> set letters. c = [l]) \<or>
         (\<exists>w \<in> set (placedWords st). \<exists>l \<in> set w. c = [l]))"
    if "row \<in> set g" for row
  proof -
    from that obtain y where y: "y < length g" "row = g ! y" by (auto simp: in_set_conv_nth)
    with sq have ysz: "y < sz" and len: "length row = sz"
      by (simp_all add: square_def list_all_length)
    have "(\<exists>l \<in> set letters. c = [l]) \<or> (\<exists>w \<in> set (placedWords st). \<exists>l \<in> set w. c = [l])"
      if "c \<in> set row" for c
    proof -
      from that len obtain x where "x < sz" "c = row ! x" by (auto simp: in_set_conv_nth)
      with all[OF ysz] y(2) show ?thesis by (auto simp: isLetter_def)
    qed
    with len show ?thesis by blast
  qed
  have az: "\<forall>row \<in> set g. \<forall>c \<in> set row. \<exists>l \<in> set letters. c = [l]"
    if "\<forall>w \<in> set words. \<forall>l \<in> set w. l \<in> set letters"
    using rows sub that by blast
  have "length g = sz" using sq by (simp add: square_def)
  with rows sub az show ?thesis unfolding generateWordSearch_def run(4) by simp
qed

lemma run_keeps_letters:
  "\<exists>st1 res. placeWords rnd sz (initialState sz) ws1 = Inr st1 \<and>
      generateFrom rnd (ws1 @ ws2) sz = Inr res \<and>
      keepsLetters sz (grid st1) (grid res)"
proof -
  have sq0: "square sz (grid (initialState sz))"
    by (simp add: initialState_def square_emptyGrid)
  from placeWords_ok[OF sq0, of rnd ws1]
  obtain st1 where 1: "placeWords rnd sz (initialState sz) ws1 = Inr st1" "square sz (grid st1)"
    by blast
  from placeWords_ok[OF 1(2), of rnd ws2]
  obtain st2 where 2: "placeWords rnd sz st1 ws2 = Inr st2" "square sz (grid st2)"
    "keepsLetters sz (grid st1) (grid st2)" by blast
  have all: "placeWords rnd sz (initialState sz) (ws1 @ ws2) = Inr st2"
    using 1(1) 2(1) by (simp add: placeWords_append)
  obtain g k where f: "fillEmptyCells rnd (grid st2) (calls st2) = (g, k)" by fastforce
  from fillEmptyCells_props(2)[OF f 2(2)] 2(3) have "keepsLetters sz (grid st1) g"
    by (rule keepsLetters_trans[rotated])
  moreover have "generateFrom rnd (ws1 @ ws2) sz = Inr (st2\<lparr>grid := g, calls := k\<rparr>)"
    using all f by (simp add: generateFrom_def initialState_def emptyGrid_def)
  ultimately show ?thesis using 1(1) by simp
qed

text \<open>
  Claim C3. From any state of a run, whose grid is \<open>sz\<close> by \<open>sz\<close>: a placement
  that \<^verbatim>\<open>canPlaceWord\<close> accepted, the processing of one word, the processing
  of any list of remaining words and the fill pass all return normally and
  leave every cell that already holds a letter with that same letter
  (\<open>keepsLetters\<close>); only empty cells change. The placement writes \<open>word[i]\<close>
  into its \<open>i\<close>-th target cell, which was empty or held \<open>word[i]\<close> already,
  and changes no other cell. For a whole run: whatever
  letters the grid holds after any prefix \<open>ws1\<close> of the words processed are
  still there, unchanged, in the grid the generator returns.
\<close>

theorem letters_never_overwritten:
  assumes "square sz (grid st)"
  shows "(\<forall>word x y dx dy. (dx, dy) \<in> set directions \<longrightarrow>
            canPlaceWord (grid st) word x y dx dy sz = Inr True \<longrightarrow>
            (\<exists>g'. placeWord (grid st) word x y dx dy = Inr g' \<and>
                  keepsLetters sz (grid st) g' \<and>
                  (\<forall>i < length word.
                     (cellAt (grid st) (x + int i * dx) (y + int i * dy) = [] \<or>
                      cellAt (grid st) (x + int i * dx) (y + int i * dy) = [word ! i]) \<and>
                     cellAt g' (x + int i * dx) (y + int i * dy) = [word ! i]) \<and>
                  (\<forall>x' y'. inside sz x' y' \<longrightarrow>
                     (\<forall>i < length word. \<not> (x' = x + int i * dx \<and> y' = y + int i * dy)) \<longrightarrow>
                     cellAt g' x' y' = cellAt (grid st) x' y')))
       \<and> (\<forall>word. \<exists>st'. tryPlaceWord rnd sz st word = Inr st' \<and> square sz (grid st') \<and>
                  keepsLetters sz (grid st) (grid st'))
       \<and> (\<forall>ws. \<exists>st'. placeWords rnd sz st ws = Inr st' \<and> square sz (grid st') \<and>
                  keepsLetters sz (grid st) (grid st'))
       \<and> keepsLetters sz (grid st) (fst (fillEmptyCells rnd (grid st) (calls st)))
       \<and> (\<forall>ws1 ws2. \<exists>st1 res. placeWords rnd sz (initialState sz) ws1 = Inr st1 \<and>
             generateFrom rnd (ws1 @ ws2) sz = Inr res \<and>
             keepsLetters sz (grid st1) (grid res))"
proof (intro conjI allI impI)
  fix ws1 ws2
  show "\<exists>st1 res. placeWords rnd sz (initialState sz) ws1 = Inr st1 \<and>
             generateFrom rnd (ws1 @ ws2) sz = Inr res \<and>
             keepsLetters sz (grid st1) (grid res)"
    by (rule run_keeps_letters)
next
  fix word x y dx dy
  assume d: "(dx, dy) \<in> set directions"
    and c: "canPlaceWord (grid st) word x y dx dy sz = Inr True"
  from c have v: "validPlacement (grid st) word x y dx dy sz"
    by (simp add: canPlaceWord_valid[OF assms])
  from v have before: "\<forall>i < length word.
      cellAt (grid st) (x + int i * dx) (y + int i * dy) = [] \<or>
      cellAt (grid st) (x + int i * dx) (y + int i * dy) = [word ! i]"
    by (simp add: validPlacement_def)
  from placeWord_valid[OF assms directions_nonzero[OF d] v]
  obtain g' where g': "placeWord (grid st) word x y dx dy = Inr g'"
    "keepsLetters sz (grid st) g'"
    "\<forall>i < length word. cellAt g' (x + int i * dx) (y + int i * dy) = [word ! i]"
    "\<forall>x' y'. inside sz x' y' \<longrightarrow>
       (\<forall>i < length word. \<not> (x' = x + int i * dx \<and> y' = y + int i * dy)) \<longrightarrow>
       cellAt g' x' y' = cellAt (grid st) x' y'"
    by blast
  with before
  show "\<exists>g'. placeWord (grid st) word x y dx dy = Inr g' \<and>
          keepsLetters sz (grid st) g' \<and>
          (\<forall>i < length word.
             (cellAt (grid st) (x + int i * dx) (y + int i * dy) = [] \<or>
              cellAt (grid st) (x + int i * dx) (y + int i * dy) = [word ! i]) \<and>
             cellAt g' (x + int i * dx) (y + int i * dy) = [word ! i]) \<and>
          (\<forall>x' y'. inside sz x' y' \<longrightarrow>
             (\<forall>i < length word. \<not> (x' = x + int i * dx \<and> y' = y + int i * dy)) \<longrightarrow>
             cellAt g' x' y' = cellAt (grid st) x' y')"
    by blast
next
  fix word
  from tryPlaceWord_step[OF assms, of rnd word]
  show "\<exists>st'. tryPlaceWord rnd sz st word = Inr st' \<and> square sz (grid st') \<and>
              keepsLetters sz (grid st) (grid st')" by blast
next
  fix ws
  from placeWords_ok[OF assms, of rnd ws]
  show "\<exists>st'. placeWords rnd sz st ws = Inr st' \<and> square sz (grid st') \<and>
              keepsLetters sz (grid st) (grid st')" by blast
next
  obtain g k where f: "fillEmptyCells rnd (grid st) (calls st) = (g, k)" by fastforce
  from fillEmptyCells_props(2)[OF f assms] f
  show "keepsLetters sz (grid st) (fst (fillEmptyCells rnd (grid st) (calls st)))" by simp
qed

text \<open>
  Claim C5. A word longer than the size never appears in the returned
  \<open>placedWords\<close> and has a \<open>TooLong\<close> warning in the log; processing it changes
  nothing but the log, returns normally, and the loop goes on with the
  remaining words.
\<close>

theorem too_long_words_skipped:
  "(\<exists>res. generateWordSearch rnd words sz = Inr res \<and>
      (\<forall>w \<in> set words. sz < length w \<longrightarrow>
         w \<notin> set (placedWords res) \<and> TooLong w \<in> set (warnings res)))
   \<and> (\<forall>st word rest. sz < length word \<longrightarrow>
         tryPlaceWord rnd sz st word = Inr (st\<lparr>warnings := warnings st @ [TooLong word]\<rparr>) \<and>
         placeWords rnd sz st (word # rest) =
           placeWords rnd sz (st\<lparr>warnings := warnings st @ [TooLong word]\<rparr>) rest)"
proof (intro conjI allI impI)
  obtain st g k where run: "placeWords rnd sz (initialState sz) (sortBy byLength words) = Inr st"
    "square sz (grid st)" "fillEmptyCells rnd (grid st) (calls st) = (g, k)"
    "generateFrom rnd (sortBy byLength words) sz = Inr (st\<lparr>grid := g, calls := k\<rparr>)"
    by (rule generateFrom_run)
  have sq0: "square sz (grid (initialState sz))"
    by (simp add: initialState_def square_emptyGrid)
  from placeWords_too_long[OF sq0 run(1)]
  have "\<forall>w \<in> set words. sz < length w \<longrightarrow> TooLong w \<in> set (warnings st)"
    and "set (placedWords st) \<subseteq> {w \<in> set words. length w \<le> sz}"
    by (simp_all add: set_sortBy initialState_def)
  then show "\<exists>res. generateWordSearch rnd words sz = Inr res \<and>
      (\<forall>w \<in> set words. sz < length w \<longrightarrow>
         w \<notin> set (placedWords res) \<and> TooLong w \<in> set (warnings res))"
    unfolding generateWordSearch_def run(4) by auto
next
  fix st and word :: string and rest :: "string list" assume "sz < length word"
  then show "tryPlaceWord rnd sz st word = Inr (st\<lparr>warnings := warnings st @ [TooLong word]\<rparr>)"
    by (simp add: tryPlaceWord_def)
  then show "placeWords rnd sz st (word # rest) =
           placeWords rnd sz (st\<lparr>warnings := warnings st @ [TooLong word]\<rparr>) rest"
    by simp
qed


subsection \<open>The retry budget\<close>







lemma card_residue:
  fixes n m t :: nat
  assumes "t < n"
  shows "card {r. r < n * m \<and> r mod n = t} = m"
proof -
  have "{r. r < n * m \<and> r mod n = t} = (\<lambda>j. t + n * j) ` {..<m}"
  proof (intro set_eqI iffI)
    fix r assume "r \<in> {r. r < n * m \<and> r mod n = t}"
    then have r: "r < n * m" "r mod n = t" by simp_all
    have "r = t + n * (r div n)" using r(2) by (metis mod_mult_div_eq)
    moreover have "r div n < m" using r(1) assms
      by (simp add: less_mult_imp_div_less mult.commute)
    ultimately show "r \<in> (\<lambda>j. t + n * j) ` {..<m}" by blast
  next
    fix r assume "r \<in> (\<lambda>j. t + n * j) ` {..<m}"
    then obtain j where j: "j < m" "r = t + n * j" by blast
    have "t + n * j < n * m"
    proof -
      have "t + n * j < n + n * j" using assms by simp
      also have "\<dots> = n * Suc j" by simp
      also have "\<dots> \<le> n * m" using j(1) by (intro mult_le_mono2) simp
      finally show ?thesis .
    qed
    moreover have "(t + n * j) mod n = t" using assms by simp
    ultimately show "r \<in> {r. r < n * m \<and> r mod n = t}" using j(2) by simp
  qed
  moreover have "inj_on (\<lambda>j. t + n * j) {..<m}"
    using assms by (auto simp: inj_on_def)
  ultimately show ?thesis by (simp add: card_image)
qed

lemma random_below_equidistributed:
  assumes "t < n"
  shows "card {r. r < n * m \<and> random_below (\<lambda>i. r) k n = t} = m"
proof -
  from assms have "n \<noteq> 0" by simp
  then have "{r. r < n * m \<and> random_below (\<lambda>i. r) k n = t} = {r. r < n * m \<and> r mod n = t}"
    by (simp add: random_below_def)
  with card_residue[OF assms, of m] show ?thesis by simp
qed





subsection \<open>The two columns\<close>

lemma midPoint_div: "midPoint xs = (length xs + 1) div 2"
proof -
  have "\<lceil>real (length xs) / 2\<rceil> = (int (length xs) + 1) div 2"
    by (simp add: ceiling_eq_iff) linarith
  then show ?thesis by (simp add: midPoint_def nat_div_distrib nat_add_distrib)
qed

text \<open>
  Claim C9. The left column has \<open>ceil(n/2)\<close> words, the right column
  \<open>floor(n/2)\<close>, left followed by right is the \<open>placed\<close> list, and the HTML
  renderer and the direct PDF renderer compute the same two columns.
\<close>

theorem column_split:
  "length (fst (createPuzzleHTML_columns placed)) = nat \<lceil>real (length placed) / 2\<rceil>
   \<and> length (snd (createPuzzleHTML_columns placed)) = nat \<lfloor>real (length placed) / 2\<rfloor>
   \<and> fst (createPuzzleHTML_columns placed) @ snd (createPuzzleHTML_columns placed) = placed
   \<and> createPDFDirectly_columns placed = createPuzzleHTML_columns placed"
proof -
  have m: "midPoint placed = (length placed + 1) div 2" by (rule midPoint_div)
  have c: "nat \<lceil>real (length placed) / 2\<rceil> = (length placed + 1) div 2"
    using m by (simp add: midPoint_def)
  have "\<lfloor>real (length placed) / 2\<rfloor> = int (length placed) div 2"
    by (simp add: floor_eq_iff) linarith
  then have f: "nat \<lfloor>real (length placed) / 2\<rfloor> = length placed div 2"
    by (simp add: nat_div_distrib)
  have le: "(length placed + 1) div 2 \<le> length placed" by simp
  show ?thesis
    unfolding c f createPuzzleHTML_columns_def createPDFDirectly_columns_def
    by (simp add: Let_def slice_to_def slice_from_def m min_absorb2 le)
qed

subsection \<open>The caller's words\<close>

text \<open>
  Claim C10. With the caller's array at address \<open>words\<close> of the store, the
  store after a call holds every array that was there before, unchanged in
  content and order, the caller's own included; the copy made by the spread
  is the only array sorted, and the result is that of the generator on the
  caller's words.
\<close>

theorem words_not_mutated:
  assumes "words < length h"
  shows "(case generateWordSearch_store rnd h words sz of
            (h', res) \<Rightarrow> h' ! words = h ! words \<and> take (length h) h' = h \<and>
                         res = generateWordSearch rnd (h ! words) sz)"
  using assms
  by (simp add: generateWordSearch_store_def spread_def sortInPlace_def
      generateWordSearch_def nth_append)

subsection \<open>Dependence on the random source\<close>

lemma random_below_agree: "rnd' k = rnd k \<Longrightarrow> random_below rnd' k n = random_below rnd k n"
  by (simp add: random_below_def)

lemma candidate_agree:
  "\<forall>i < k + 3 * Suc j. rnd' i = rnd i \<Longrightarrow> candidate rnd' sz k j = candidate rnd sz k j"
  by (simp add: candidate_def random_below_def)

lemma tryPlaceWord_agree:
  assumes sq: "square sz (grid st)"
    and run: "tryPlaceWord rnd sz st word = Inr st'"
    and agree: "\<forall>i < calls st'. rnd' i = rnd i"
  shows "tryPlaceWord rnd' sz st word = Inr st'"
  using sq
proof (cases rule: tryPlaceWord_cases[where rnd = rnd and word = word])
  case too_long
  from too_long(1) run show ?thesis by (simp add: tryPlaceWord_def)
next
  case failed
  from run failed(3) have c: "calls st' = calls st + 3 * maxAttempts" by auto
  have same: "candidate rnd' sz (calls st) j = candidate rnd sz (calls st) j"
    if "j < maxAttempts" for j
    using that agree c by (intro candidate_agree) simp
  from sq show ?thesis
  proof (cases rule: tryPlaceWord_cases[where rnd = rnd' and word = word])
    case too_long
    from too_long(1) failed(1) show ?thesis by simp
  next
    case failed': failed
    from failed'(3) failed(3) run show ?thesis by simp
  next
    case (placed j dx dy x y g')
    from placed(3,4) have "candidateOk (grid st) word sz (candidate rnd' sz (calls st) j)"
      by (simp add: candidateOk_def)
    then have "candidateOk (grid st) word sz (candidate rnd sz (calls st) j)"
      unfolding same[OF placed(2)] .
    with failed(2) placed(2) show ?thesis by blast
  qed
next
  case (placed j dx dy x y g')
  from run placed(7) have c: "calls st' = calls st + 3 * Suc j" by auto
  have same: "candidate rnd' sz (calls st) j' = candidate rnd sz (calls st) j'"
    if "j' \<le> j" for j'
    using that agree c by (intro candidate_agree) simp
  have e: "candidate rnd' sz (calls st) j = candidate rnd sz (calls st) j"
    by (rule same) simp
  have okj: "candidateOk (grid st) word sz (candidate rnd' sz (calls st) j)"
    unfolding e using placed(3,4) by (simp add: candidateOk_def)
  from sq show ?thesis
  proof (cases rule: tryPlaceWord_cases[where rnd = rnd' and word = word])
    case too_long
    from too_long(1) placed(1) show ?thesis by simp
  next
    case failed
    from failed(2) okj placed(2) show ?thesis by blast
  next
    case placed': (placed j2 dx2 dy2 x2 y2 g2)
    have "j2 = j"
    proof (rule ccontr)
      assume "j2 \<noteq> j"
      then consider "j2 < j" | "j < j2" by linarith
      then show False
      proof cases
        case 1
        with placed(5) have n: "\<not> candidateOk (grid st) word sz (candidate rnd sz (calls st) j2)"
          by blast
        from 1 have "candidate rnd' sz (calls st) j2 = candidate rnd sz (calls st) j2"
          by (intro same) simp
        with placed'(3) have "candidate rnd sz (calls st) j2 = ((dx2, dy2), x2, y2)" by simp
        with n placed'(4) show False by (simp add: candidateOk_def)
      next
        case 2
        with placed'(5)
        have "\<not> candidateOk (grid st) word sz (candidate rnd' sz (calls st) j)" by blast
        with okj show False by blast
      qed
    qed
    from placed'(3) have "candidate rnd' sz (calls st) j = ((dx2, dy2), x2, y2)"
      unfolding \<open>j2 = j\<close> .
    with e placed(3) have "((dx2, dy2), x2, y2) = ((dx, dy), x, y)" by simp
    then have d: "dx2 = dx" "dy2 = dy" "x2 = x" "y2 = y" by simp_all
    from placed'(6) placed(6) have "g2 = g'" unfolding d by simp
    from placed'(7) have "tryPlaceWord rnd' sz st word =
        Inr (st\<lparr>grid := g', placedWords := placedWords st @ [word],
                 calls := calls st + 3 * Suc j\<rparr>)"
      unfolding \<open>j2 = j\<close> \<open>g2 = g'\<close> .
    with placed(7) run show ?thesis by simp
  qed
qed

lemma placeWords_agree:
  assumes "square sz (grid st)" and "placeWords rnd sz st ws = Inr st'"
    and "\<forall>i < calls st'. rnd' i = rnd i"
  shows "placeWords rnd' sz st ws = Inr st'"
  using assms
proof (induction ws arbitrary: st)
  case Nil
  then show ?case by simp
next
  case (Cons w ws)
  from tryPlaceWord_step[OF Cons.prems(1), of rnd w]
  obtain st1 where 1: "tryPlaceWord rnd sz st w = Inr st1" "square sz (grid st1)" by blast
  have r: "placeWords rnd sz st1 ws = Inr st'" using Cons.prems(2) 1(1) by simp
  from placeWords_ok[OF 1(2), of rnd ws] r have "calls st1 \<le> calls st'" by auto
  with Cons.prems(3) have "\<forall>i < calls st1. rnd' i = rnd i" by simp
  from tryPlaceWord_agree[OF Cons.prems(1) 1(1) this]
  have "tryPlaceWord rnd' sz st w = Inr st1" .
  moreover have "placeWords rnd' sz st1 ws = Inr st'"
    using 1(2) r Cons.prems(3) by (rule Cons.IH)
  ultimately show ?case by simp
qed

lemma fillRow_agree:
  "fillRow rnd row x k = (row', k') \<Longrightarrow> \<forall>i < k'. rnd' i = rnd i \<Longrightarrow>
   fillRow rnd' row x k = (row', k')"
proof (induction rnd row x k rule: fillRow.induct)
  case (1 rnd row x k)
  show ?case
  proof (cases "x < length row")
    case False
    with "1.prems"(1) show ?thesis
      by (subst fillRow.simps, subst (asm) fillRow.simps) simp
  next
    case len: True
    show ?thesis
    proof (cases "row ! x = []")
      case False
      with len "1.prems"(1) have r: "fillRow rnd row (Suc x) k = (row', k')"
        by (subst (asm) fillRow.simps) simp
      from "1.IH"(2)[OF len False r "1.prems"(2)] len False show ?thesis
        by (subst fillRow.simps) simp
    next
      case True
      let ?row1 = "row[x := [letters ! random_below rnd k (length letters)]]"
      from len True "1.prems"(1) have r: "fillRow rnd ?row1 (Suc x) (Suc k) = (row', k')"
        by (subst (asm) fillRow.simps) (simp add: Let_def)
      from fillRow_props[OF r] have "k < k'" by simp
      with "1.prems"(2) have "rnd' k = rnd k" by simp
      then have same: "random_below rnd' k (length letters) = random_below rnd k (length letters)"
        by (rule random_below_agree)
      from "1.IH"(1)[OF len True refl r "1.prems"(2)] len True same show ?thesis
        by (subst fillRow.simps) (simp add: Let_def)
    qed
  qed
qed

lemma fillRows_agree:
  "fillRows rnd g y k = (g', k') \<Longrightarrow> \<forall>i < k'. rnd' i = rnd i \<Longrightarrow>
   fillRows rnd' g y k = (g', k')"
proof (induction rnd g y k rule: fillRows.induct)
  case (1 rnd g y k)
  show ?case
  proof (cases "y < length g")
    case False
    with "1.prems"(1) show ?thesis
      by (subst fillRows.simps, subst (asm) fillRows.simps) simp
  next
    case len: True
    obtain row1 k1 where f: "fillRow rnd (g ! y) 0 k = (row1, k1)" by fastforce
    from len f "1.prems"(1) have r: "fillRows rnd (g[y := row1]) (Suc y) k1 = (g', k')"
      by (subst (asm) fillRows.simps) simp
    from fillRows_props[OF r] have "k1 \<le> k'" by simp
    with "1.prems"(2) have "\<forall>i < k1. rnd' i = rnd i" by simp
    from fillRow_agree[OF f this] have f': "fillRow rnd' (g ! y) 0 k = (row1, k1)" .
    from "1.IH"[OF len f[symmetric] r "1.prems"(2)] len f' show ?thesis
      by (subst fillRows.simps) simp
  qed
qed

text \<open>
  Claim C8. The result of a run is a function of the words, the size and
  the random values the run draws: a second run on the same words and size
  whose random source gives the same values for the draws the first run made
  (\<open>calls res\<close> of them) returns the same grid, the same \<open>placedWords\<close> and the
  same warnings. In particular two runs with the same random sequence agree.
\<close>

theorem deterministic_given_random_source:
  assumes "generateWordSearch rnd words sz = Inr res"
    and "\<forall>i < calls res. rnd' i = rnd i"
  shows "generateWordSearch rnd' words sz = Inr res"
proof -
  obtain st g k where run: "placeWords rnd sz (initialState sz) (sortBy byLength words) = Inr st"
    "square sz (grid st)" "fillEmptyCells rnd (grid st) (calls st) = (g, k)"
    "generateFrom rnd (sortBy byLength words) sz = Inr (st\<lparr>grid := g, calls := k\<rparr>)"
    by (rule generateFrom_run)
  from assms(1) run(4) have res: "res = st\<lparr>grid := g, calls := k\<rparr>"
    by (simp add: generateWordSearch_def)
  with assms(2) have ag: "\<forall>i < k. rnd' i = rnd i" by simp
  have sq0: "square sz (grid (initialState sz))"
    by (simp add: initialState_def square_emptyGrid)
  from fillEmptyCells_props(3)[OF run(3,2)] ag
  have "\<forall>i < calls st. rnd' i = rnd i" by simp
  from placeWords_agree[OF sq0 run(1) this]
  have p: "placeWords rnd' sz (initialState sz) (sortBy byLength words) = Inr st" .
  from run(3) have "fillRows rnd (grid st) 0 (calls st) = (g, k)"
    by (simp add: fillEmptyCells_def)
  from fillRows_agree[OF this ag]
  have f: "fillEmptyCells rnd' (grid st) (calls st) = (g, k)"
    by (simp add: fillEmptyCells_def)
  show ?thesis
    using p f res
    by (simp add: generateWordSearch_def generateFrom_def initialState_def emptyGrid_def)
qed

section \<open>Concrete runs\<close>

text \<open>
  The theorems above, applied to small inputs whose results are computed from
  the definitions.
\<close>

lemma example_run:
  "generateWordSearch (\<lambda>k. k * 7 + 3) [''CAT'', ''DOG''] 4 =
     Inr \<lparr>grid = [[''U'', ''C'', ''B'', ''I''], [''P'', ''W'', ''A'', ''D''],
                  [''K'', ''R'', ''Y'', ''T''], [''D'', ''O'', ''G'', ''F'']],
          placedWords = [''CAT'', ''DOG''], warnings = [], calls = 31\<rparr>"
  by code_simp

lemma example_run_skips:
  "generateWordSearch (\<lambda>k. 5 * k) [''Q'', ''AB'', ''ABCDE''] 2 =
     Inr \<lparr>grid = [[''E'', ''A''], [''Q'', ''B'']], placedWords = [''AB'', ''Q''],
          warnings = [TooLong ''ABCDE''], calls = 7\<rparr>"
  by code_simp

lemma square_exampleState: "square 2 (grid exampleState)"
  by (simp add: exampleState_def square_def)

theorem placed_words_traceable_witness:
  "(0::nat) < 4 \<and>
   (\<exists>res. generateWordSearch (\<lambda>k. k * 7 + 3) [''CAT'', ''DOG''] 4 = Inr res \<and>
      placedWords res = [''CAT'', ''DOG''] \<and>
      (\<forall>word \<in> set (placedWords res).
         \<exists>x < 4. \<exists>y < 4. \<exists>(dx, dy) \<in> set directions.
           \<forall>i < length word.
             0 \<le> int x + int i * dx \<and> int x + int i * dx < int 4 \<and>
             0 \<le> int y + int i * dy \<and> int y + int i * dy < int 4 \<and>
             grid res ! nat (int y + int i * dy) ! nat (int x + int i * dx) = [word ! i]))"
proof -
  have pos: "(0::nat) < 4" by simp
  from placed_words_traceable[OF pos, of "\<lambda>k. k * 7 + 3" "[''CAT'', ''DOG'']"]
  obtain res where res: "generateWordSearch (\<lambda>k. k * 7 + 3) [''CAT'', ''DOG''] 4 = Inr res"
    and tr: "\<forall>word \<in> set (placedWords res).
         \<exists>x < 4. \<exists>y < 4. \<exists>(dx, dy) \<in> set directions.
           \<forall>i < length word.
             0 \<le> int x + int i * dx \<and> int x + int i * dx < int 4 \<and>
             0 \<le> int y + int i * dy \<and> int y + int i * dy < int 4 \<and>
             grid res ! nat (int y + int i * dy) ! nat (int x + int i * dx) = [word ! i]"
    by blast
  from res have "placedWords res = [''CAT'', ''DOG'']" unfolding example_run by auto
  with pos res tr show ?thesis by blast
qed

theorem grid_fully_lettered_witness:
  "\<exists>res. generateWordSearch (\<lambda>k. k * 7 + 3) [''CAT'', ''DOG''] 4 = Inr res \<and>
     grid res = [[''U'', ''C'', ''B'', ''I''], [''P'', ''W'', ''A'', ''D''],
                 [''K'', ''R'', ''Y'', ''T''], [''D'', ''O'', ''G'', ''F'']] \<and>
     length (grid res) = 4 \<and>
     (\<forall>row \<in> set (grid res). length row = 4 \<and>
        (\<forall>c \<in> set row. \<exists>l \<in> set letters. c = [l]))"
proof -
  have az: "\<forall>w \<in> set [''CAT'', ''DOG'']. \<forall>l \<in> set w. l \<in> set letters"
    by (simp add: letters_def)
  from grid_fully_lettered[of "\<lambda>k. k * 7 + 3" "[''CAT'', ''DOG'']" 4]
  obtain res where res: "generateWordSearch (\<lambda>k. k * 7 + 3) [''CAT'', ''DOG''] 4 = Inr res"
    and len: "length (grid res) = 4"
    and rows: "\<forall>row \<in> set (grid res). length row = 4 \<and>
        (\<forall>c \<in> set row. (\<exists>l \<in> set letters. c = [l]) \<or>
           (\<exists>w \<in> set (placedWords res). \<exists>l \<in> set w. c = [l]))"
    and imp: "(\<forall>w \<in> set [''CAT'', ''DOG'']. \<forall>l \<in> set w. l \<in> set letters) \<longrightarrow>
        (\<forall>row \<in> set (grid res). \<forall>c \<in> set row. \<exists>l \<in> set letters. c = [l])"
    by blast
  from imp az have cells: "\<forall>row \<in> set (grid res). \<forall>c \<in> set row. \<exists>l \<in> set letters. c = [l]"
    by blast
  from res have "grid res = [[''U'', ''C'', ''B'', ''I''], [''P'', ''W'', ''A'', ''D''],
                 [''K'', ''R'', ''Y'', ''T''], [''D'', ''O'', ''G'', ''F'']]"
    unfolding example_run by auto
  with res len rows cells show ?thesis by blast
qed

text \<open>
  Not every cell of every generated grid is a letter of A to Z: the word
  ``T-REX'', which the word-list reader passes on as it is, is placed, and the
  returned grid holds a hyphen in row 1, column 0.
\<close>

theorem non_letter_word_counterexample:
  "generateWordSearch fiveTimes [''T-REX''] 5 =
     Inr \<lparr>grid = [[''T'', ''P'', ''U'', ''Z'', ''E''],
                  [''-'', ''J'', ''O'', ''T'', ''Y''],
                  [''R'', ''D'', ''I'', ''N'', ''S''],
                  [''E'', ''X'', ''C'', ''H'', ''M''],
                  [''X'', ''R'', ''W'', ''B'', ''G'']],
          placedWords = [''T-REX''], warnings = [], calls = 23\<rparr> \<and>
   [[''T'', ''P'', ''U'', ''Z'', ''E''],
    [''-'', ''J'', ''O'', ''T'', ''Y''],
    [''R'', ''D'', ''I'', ''N'', ''S''],
    [''E'', ''X'', ''C'', ''H'', ''M''],
    [''X'', ''R'', ''W'', ''B'', ''G'']] ! 1 ! 0 = ''-'' \<and>
   CHR ''-'' \<notin> set letters"
proof -
  have "generateWordSearch fiveTimes [''T-REX''] 5 =
     Inr \<lparr>grid = [[''T'', ''P'', ''U'', ''Z'', ''E''],
                  [''-'', ''J'', ''O'', ''T'', ''Y''],
                  [''R'', ''D'', ''I'', ''N'', ''S''],
                  [''E'', ''X'', ''C'', ''H'', ''M''],
                  [''X'', ''R'', ''W'', ''B'', ''G'']],
          placedWords = [''T-REX''], warnings = [], calls = 23\<rparr>"
    by code_simp
  moreover have "CHR ''-'' \<notin> set letters" by (simp add: letters_def)
  ultimately show ?thesis by simp
qed

theorem letters_never_overwritten_witness:
  "square 2 (grid exampleState) \<and>
   canPlaceWord (grid exampleState) ''AQ'' 0 0 1 0 2 = Inr True \<and>
   placeWord (grid exampleState) ''AQ'' 0 0 1 0 = Inr [[''A'', ''Q''], [''B'', []]] \<and>
   keepsLetters 2 (grid exampleState) [[''A'', ''Q''], [''B'', []]] \<and>
   (\<exists>st'. placeWords (\<lambda>k. k) 2 exampleState [''AQ''] = Inr st' \<and>
      grid st' = [[''A'', ''A''], [''B'', ''Q'']] \<and>
      keepsLetters 2 (grid exampleState) (grid st')) \<and>
   fst (fillEmptyCells (\<lambda>k. k) (grid exampleState) (calls exampleState)) =
     [[''A'', ''D''], [''B'', ''E'']] \<and>
   keepsLetters 2 (grid exampleState)
     (fst (fillEmptyCells (\<lambda>k. k) (grid exampleState) (calls exampleState)))"
proof -
  note inst = letters_never_overwritten[OF square_exampleState, of "\<lambda>k. k"]
  have can: "canPlaceWord (grid exampleState) ''AQ'' 0 0 1 0 2 = Inr True" by code_simp
  have put: "placeWord (grid exampleState) ''AQ'' 0 0 1 0 = Inr [[''A'', ''Q''], [''B'', []]]"
    by code_simp
  have dir: "(1, 0) \<in> set directions" by (simp add: directions_def)
  from inst dir can obtain g' where "placeWord (grid exampleState) ''AQ'' 0 0 1 0 = Inr g'"
    "keepsLetters 2 (grid exampleState) g'" by blast
  with put have k1: "keepsLetters 2 (grid exampleState) [[''A'', ''Q''], [''B'', []]]" by simp
  have run: "placeWords (\<lambda>k. k) 2 exampleState [''AQ''] =
      Inr \<lparr>grid = [[''A'', ''A''], [''B'', ''Q'']], placedWords = [''AB'', ''AQ''],
           warnings = [], calls = 27\<rparr>"
    by code_simp
  from inst obtain st' where st': "placeWords (\<lambda>k. k) 2 exampleState [''AQ''] = Inr st'"
    "keepsLetters 2 (grid exampleState) (grid st')" by blast
  from st'(1) have g: "grid st' = [[''A'', ''A''], [''B'', ''Q'']]" unfolding run by auto
  have fill: "fst (fillEmptyCells (\<lambda>k. k) (grid exampleState) (calls exampleState)) =
     [[''A'', ''D''], [''B'', ''E'']]" by code_simp
  from inst have k3: "keepsLetters 2 (grid exampleState)
     (fst (fillEmptyCells (\<lambda>k. k) (grid exampleState) (calls exampleState)))" by blast
  from square_exampleState can put k1 st' g fill k3 show ?thesis by blast
qed

theorem too_long_words_skipped_witness:
  "(\<exists>res. generateWordSearch (\<lambda>k. 5 * k) [''Q'', ''AB'', ''ABCDE''] 2 = Inr res \<and>
      placedWords res = [''AB'', ''Q''] \<and> warnings res = [TooLong ''ABCDE''] \<and>
      ''ABCDE'' \<notin> set (placedWords res) \<and> TooLong ''ABCDE'' \<in> set (warnings res))
   \<and> tryPlaceWord (\<lambda>k. 5 * k) 2 exampleState ''ABCDE'' =
         Inr (exampleState\<lparr>warnings := warnings exampleState @ [TooLong ''ABCDE'']\<rparr>)
   \<and> placeWords (\<lambda>k. 5 * k) 2 exampleState [''ABCDE'', ''Q''] =
         placeWords (\<lambda>k. 5 * k) 2
           (exampleState\<lparr>warnings := warnings exampleState @ [TooLong ''ABCDE'']\<rparr>) [''Q'']"
proof -
  note inst = too_long_words_skipped[of "\<lambda>k. 5 * k" "[''Q'', ''AB'', ''ABCDE'']" 2]
  have long: "2 < length ''ABCDE''" by simp
  from inst obtain res where
    res: "generateWordSearch (\<lambda>k. 5 * k) [''Q'', ''AB'', ''ABCDE''] 2 = Inr res"
    and skip: "\<forall>w \<in> set [''Q'', ''AB'', ''ABCDE'']. 2 < length w \<longrightarrow>
         w \<notin> set (placedWords res) \<and> TooLong w \<in> set (warnings res)"
    by blast
  from skip have a: "''ABCDE'' \<notin> set (placedWords res)" "TooLong ''ABCDE'' \<in> set (warnings res)"
    by simp_all
  from res have b: "placedWords res = [''AB'', ''Q'']" "warnings res = [TooLong ''ABCDE'']"
    unfolding example_run_skips by auto
  from inst long
  have c: "tryPlaceWord (\<lambda>k. 5 * k) 2 exampleState ''ABCDE'' =
         Inr (exampleState\<lparr>warnings := warnings exampleState @ [TooLong ''ABCDE'']\<rparr>)"
    and d: "placeWords (\<lambda>k. 5 * k) 2 exampleState [''ABCDE'', ''Q''] =
         placeWords (\<lambda>k. 5 * k) 2
           (exampleState\<lparr>warnings := warnings exampleState @ [TooLong ''ABCDE'']\<rparr>) [''Q'']"
    by blast+
  from res a b c d show ?thesis by blast
qed




theorem deterministic_given_random_source_witness:
  "generateWordSearch (\<lambda>k. k * 7 + 3) [''CAT'', ''DOG''] 4 =
     Inr \<lparr>grid = [[''U'', ''C'', ''B'', ''I''], [''P'', ''W'', ''A'', ''D''],
                  [''K'', ''R'', ''Y'', ''T''], [''D'', ''O'', ''G'', ''F'']],
          placedWords = [''CAT'', ''DOG''], warnings = [], calls = 31\<rparr> \<and>
   generateWordSearch (\<lambda>k. if k < 31 then k * 7 + 3 else 0) [''CAT'', ''DOG''] 4 =
     Inr \<lparr>grid = [[''U'', ''C'', ''B'', ''I''], [''P'', ''W'', ''A'', ''D''],
                  [''K'', ''R'', ''Y'', ''T''], [''D'', ''O'', ''G'', ''F'']],
          placedWords = [''CAT'', ''DOG''], warnings = [], calls = 31\<rparr> \<and>
   (\<lambda>k. if k < 31 then k * 7 + 3 else 0) (31::nat) \<noteq> (31 * 7 + 3 :: nat)"
proof -
  have "generateWordSearch (\<lambda>k. if k < 31 then k * 7 + 3 else 0) [''CAT'', ''DOG''] 4 =
     Inr \<lparr>grid = [[''U'', ''C'', ''B'', ''I''], [''P'', ''W'', ''A'', ''D''],
                  [''K'', ''R'', ''Y'', ''T''], [''D'', ''O'', ''G'', ''F'']],
          placedWords = [''CAT'', ''DOG''], warnings = [], calls = 31\<rparr>"
    by (rule deterministic_given_random_source[OF example_run]) simp
  with example_run show ?thesis by simp
qed

theorem column_split_witness:
  "length (fst (createPuzzleHTML_columns [''CAT'', ''DOG'', ''EMU''])) = 2 \<and>
   length (snd (createPuzzleHTML_columns [''CAT'', ''DOG'', ''EMU''])) = 1 \<and>
   createPuzzleHTML_columns [''CAT'', ''DOG'', ''EMU''] = ([''CAT'', ''DOG''], [''EMU'']) \<and>
   createPDFDirectly_columns [''CAT'', ''DOG'', ''EMU''] = ([''CAT'', ''DOG''], [''EMU''])"
proof -
  note inst = column_split[of "[''CAT'', ''DOG'', ''EMU'']"]
  have c: "nat \<lceil>real (length [''CAT'', ''DOG'', ''EMU'']) / 2\<rceil> = 2" by simp
  have f: "nat \<lfloor>real (length [''CAT'', ''DOG'', ''EMU'']) / 2\<rfloor> = 1" by simp
  from inst c have l: "length (fst (createPuzzleHTML_columns [''CAT'', ''DOG'', ''EMU''])) = 2"
    by simp
  from inst f have r: "length (snd (createPuzzleHTML_columns [''CAT'', ''DOG'', ''EMU''])) = 1"
    by simp
  from inst have app: "fst (createPuzzleHTML_columns [''CAT'', ''DOG'', ''EMU'']) @
      snd (createPuzzleHTML_columns [''CAT'', ''DOG'', ''EMU'']) = [''CAT'', ''DOG'', ''EMU'']"
    by blast
  from inst have same: "createPDFDirectly_columns [''CAT'', ''DOG'', ''EMU''] =
      createPuzzleHTML_columns [''CAT'', ''DOG'', ''EMU'']" by blast
  obtain L R where lr: "createPuzzleHTML_columns [''CAT'', ''DOG'', ''EMU''] = (L, R)"
    by fastforce
  with l r app have "length L = 2" "length R = 1" "L @ R = [''CAT'', ''DOG'', ''EMU'']"
    by simp_all
  then have "L = [''CAT'', ''DOG'']" "R = [''EMU'']"
    by (auto simp: append_eq_Cons_conv length_Suc_conv numeral_2_eq_2)
  with lr same l r show ?thesis by simp
qed

theorem words_not_mutated_witness:
  "(0::nat) < length [[''B'', ''CAT'', ''AB'']] \<and>
   fst (generateWordSearch_store (\<lambda>k. 5 * k) [[''B'', ''CAT'', ''AB'']] 0 2) ! 0 =
     [''B'', ''CAT'', ''AB''] \<and>
   fst (generateWordSearch_store (\<lambda>k. 5 * k) [[''B'', ''CAT'', ''AB'']] 0 2) =
     [[''B'', ''CAT'', ''AB''], [''CAT'', ''AB'', ''B'']] \<and>
   snd (generateWordSearch_store (\<lambda>k. 5 * k) [[''B'', ''CAT'', ''AB'']] 0 2) =
     generateWordSearch (\<lambda>k. 5 * k) [''B'', ''CAT'', ''AB''] 2"
proof -
  have len: "(0::nat) < length [[''B'', ''CAT'', ''AB'']]" by simp
  note inst = words_not_mutated[OF len, of "\<lambda>k. 5 * k" 2]
  have st: "fst (generateWordSearch_store (\<lambda>k. 5 * k) [[''B'', ''CAT'', ''AB'']] 0 2) =
     [[''B'', ''CAT'', ''AB''], [''CAT'', ''AB'', ''B'']]" by code_simp
  from inst have "fst (generateWordSearch_store (\<lambda>k. 5 * k) [[''B'', ''CAT'', ''AB'']] 0 2) ! 0 =
     [''B'', ''CAT'', ''AB'']"
    and "snd (generateWordSearch_store (\<lambda>k. 5 * k) [[''B'', ''CAT'', ''AB'']] 0 2) =
     generateWordSearch (\<lambda>k. 5 * k) [''B'', ''CAT'', ''AB''] 2"
    by (simp_all add: case_prod_unfold)
  with len st show ?thesis by simp
qed

end
